theory Spec2Isabelle
  imports Complex_Main "HOL-Library.Char_ord" "HOL-Library.List_Lexorder"
begin

section \<open>Linear regression lab: a shallow embedding of \<^verbatim>\<open>Lab_2_4_LR2.py\<close>\<close>

text \<open>
  Numbers are modelled as mathematical reals: rounding and overflow of IEEE doubles
  are outside the model. The two places where numpy produces a value that is not a
  real number (a mean of an empty array, a division by a zero array element) are
  kept visible through the type \<open>npfloat\<close>.
\<close>

subsection \<open>Errors\<close>

text \<open>
  Every exception the code can raise on the inputs modelled here. The first
  two are the \<^verbatim>\<open>ValueError\<close>s the source raises itself (told apart by their
  message); the others come from numpy and from Python's arithmetic.
\<close>

datatype error =
    MethodNotAvailable string   \<comment> \<open>\<^verbatim>\<open>ValueError("Method ... not available ...")\<close> in \<open>fit\<close>\<close>
  | NotFitted                   \<comment> \<open>\<^verbatim>\<open>ValueError("Model is not yet fitted")\<close> in \<open>predict\<close>\<close>
  | ShapeMismatch               \<comment> \<open>numpy: operands could not be broadcast / not aligned\<close>
  | NegativeDimension           \<comment> \<open>numpy: \<^verbatim>\<open>np.random.rand(-1)\<close>\<close>
  | IndexError                  \<comment> \<open>index out of bounds, or too many indices\<close>
  | ZeroDivisionError           \<comment> \<open>Python \<^verbatim>\<open>float / 0\<close> and \<^verbatim>\<open>1 / 0\<close>\<close>
  | TypeError                   \<comment> \<open>ordering a text value against a number\<close>
  | AttributeError              \<comment> \<open>reading an attribute the object does not have yet\<close>

subsection \<open>Arrays\<close>

text \<open>
  A two-dimensional array carries its column count, so that the shape \<open>(0, p)\<close> is
  a value of the type; \<open>wf_matrix\<close> says that every row has that many cells.
\<close>

datatype 'a matrix = Matrix (ncols: nat) (rows: "'a list list")

definition nrows :: "'a matrix \<Rightarrow> nat" where
  "nrows M = length (rows M)"

definition wf_matrix :: "'a matrix \<Rightarrow> bool" where
  "wf_matrix M = list_all (\<lambda>r. length r = ncols M) (rows M)"

text \<open>The argument \<open>X\<close> of \<open>fit\<close> and \<open>predict\<close>: a flat array or a 2D array.\<close>

datatype ndarray = Arr1 "real list" | Arr2 "real matrix"

text \<open>A float64 result: a real number, or one of numpy's non-finite values.\<close>

datatype npfloat = Finite real | NaN | PosInf | NegInf

text \<open>
  Elementwise binary operation on two flat arrays with numpy's broadcasting:
  equal lengths, or one of the two of length one.
\<close>

definition broadcast2 :: "(real \<Rightarrow> real \<Rightarrow> real) \<Rightarrow> real list \<Rightarrow> real list \<Rightarrow> error + real list" where
  "broadcast2 f xs ys =
     (if length xs = length ys then Inr (map2 f xs ys)
      else if length xs = 1 then Inr (map (f (hd xs)) ys)
      else if length ys = 1 then Inr (map (\<lambda>x. f x (hd ys)) xs)
      else Inl ShapeMismatch)"

definition dot :: "real list \<Rightarrow> real list \<Rightarrow> real" where
  "dot xs ys = sum_list (map2 (*) xs ys)"

text \<open>\<^verbatim>\<open>M.dot(v)\<close> and \<^verbatim>\<open>M @ v\<close> for a 2D \<open>M\<close> and a flat \<open>v\<close>.\<close>

definition mat_vec :: "real matrix \<Rightarrow> real list \<Rightarrow> error + real list" where
  "mat_vec M v =
     (if ncols M = length v then Inr (map (\<lambda>r. dot r v) (rows M)) else Inl ShapeMismatch)"

text \<open>\<^verbatim>\<open>M.T\<close>\<close>

definition transpose_m :: "'a matrix \<Rightarrow> 'a matrix" where
  "transpose_m M = Matrix (nrows M) (map (\<lambda>j. map (\<lambda>r. r ! j) (rows M)) [0..<ncols M])"

text \<open>\<^verbatim>\<open>A @ B\<close> for 2D arrays.\<close>

definition mat_mul :: "real matrix \<Rightarrow> real matrix \<Rightarrow> error + real matrix" where
  "mat_mul A B =
     (if ncols A = nrows B
      then Inr (Matrix (ncols B) (map (\<lambda>r. map (\<lambda>c. dot r c) (rows (transpose_m B))) (rows A)))
      else Inl ShapeMismatch)"

text \<open>\<^verbatim>\<open>np.c_[np.ones(X.shape[0]), X]\<close>\<close>

definition c_ones :: "real matrix \<Rightarrow> real matrix" where
  "c_ones X = Matrix (Suc (ncols X)) (map (\<lambda>r. 1 # r) (rows X))"

text \<open>\<^verbatim>\<open>X[:, 1:]\<close>\<close>

definition drop_col0 :: "'a matrix \<Rightarrow> 'a matrix" where
  "drop_col0 X = Matrix (ncols X - 1) (map tl (rows X))"

text \<open>\<^verbatim>\<open>X.reshape(-1, 1)\<close> of a flat array.\<close>

definition reshape_col :: "real list \<Rightarrow> real matrix" where
  "reshape_col xs = Matrix 1 (map (\<lambda>x. [x]) xs)"

subsection \<open>The regressor object\<close>

text \<open>
  The attributes of \<^verbatim>\<open>LinearRegressor\<close>. \<open>None\<close> is Python's \<^verbatim>\<open>None\<close> for the
  two parameters, and "attribute not yet created" for the two histories, which only
  \<open>fit_gradient_descent\<close> creates. A snapshot in \<open>param_history\<close> is the tuple
  \<^verbatim>\<open>(self.intercept, *self.coefficients)\<close>: the intercept followed by a copy of
  every coefficient.
\<close>

record regressor =
  coefficients :: "real list option"
  intercept :: "real option"
  loss_values :: "npfloat list option"
  param_history :: "real list list option"

text \<open>\<^verbatim>\<open>__init__\<close>\<close>

definition init :: regressor where
  "init = \<lparr>coefficients = None, intercept = None, loss_values = None, param_history = None\<rparr>"

text \<open>
  A method takes the object and returns what it returns or raises, together with
  the object as the call leaves it (an exception keeps the assignments made before it).
\<close>

type_synonym 'a outcome = "(error + 'a) \<times> regressor"

definition predict :: "regressor \<Rightarrow> ndarray \<Rightarrow> real list outcome" where
  "predict self X =
     (case (coefficients self, intercept self) of
        (Some c, Some b) \<Rightarrow>
          (case X of
             Arr1 xs \<Rightarrow>
               (case broadcast2 (*) xs c of
                  Inl e \<Rightarrow> (Inl e, self)
                | Inr xc \<Rightarrow> (Inr (map (\<lambda>v. v + b) xc), self))
           | Arr2 M \<Rightarrow>
               (case mat_vec M c of
                  Inl e \<Rightarrow> (Inl e, self)
                | Inr xc \<Rightarrow> (Inr (map (\<lambda>v. v + b) xc), self)))
      | _ \<Rightarrow> (Inl NotFitted, self))"

subsection \<open>Metrics\<close>

text \<open>\<^verbatim>\<open>np.mean\<close> of a flat array: \<^verbatim>\<open>nan\<close> (and a warning) when the array is empty.\<close>

definition np_mean :: "real list \<Rightarrow> npfloat" where
  "np_mean xs = (if xs = [] then NaN else Finite (sum_list xs / real (length xs)))"

text \<open>Division of two float64 scalars: numpy warns and returns \<^verbatim>\<open>nan\<close> or an infinity.\<close>

definition np_div :: "real \<Rightarrow> real \<Rightarrow> npfloat" where
  "np_div a b =
     (if b \<noteq> 0 then Finite (a / b)
      else if a = 0 then NaN else if 0 < a then PosInf else NegInf)"

text \<open>\<^verbatim>\<open>1 - x\<close>\<close>

fun one_minus :: "npfloat \<Rightarrow> npfloat" where
  "one_minus (Finite r) = Finite (1 - r)"
| "one_minus NaN = NaN"
| "one_minus PosInf = NegInf"
| "one_minus NegInf = PosInf"

text \<open>
  \<^verbatim>\<open>np.sum((y_true - np.mean(y_true)) ** 2)\<close>. The mean is \<^verbatim>\<open>nan\<close> only for an
  empty \<open>y_true\<close>, and then the sum ranges over an empty array.
\<close>

definition total_ss :: "real list \<Rightarrow> real" where
  "total_ss y_true =
     (case np_mean y_true of
        Finite mu \<Rightarrow> sum_list (map (\<lambda>v. (v - mu)\<^sup>2) y_true)
      | _ \<Rightarrow> 0)"

definition evaluate_regression :: "real list \<Rightarrow> real list \<Rightarrow> error + (string \<rightharpoonup> npfloat)" where
  "evaluate_regression y_true y_pred =
     (case broadcast2 (-) y_true y_pred of
        Inl e \<Rightarrow> Inl e
      | Inr d \<Rightarrow>
          (let RSS = sum_list (map (\<lambda>v. v\<^sup>2) d);
               TSS = total_ss y_true;
               r_squared = one_minus (np_div RSS TSS);
               N = length y_pred
           in if N = 0 then Inl ZeroDivisionError
              else
                (let rmse = sqrt (1 / real N * sum_list (map (\<lambda>v. v\<^sup>2) d));
                     mae = 1 / real N * sum_list (map abs d)
                 in Inr [''R2'' \<mapsto> r_squared, ''RMSE'' \<mapsto> Finite rmse, ''MAE'' \<mapsto> Finite mae])))"

subsection \<open>Fitting\<close>

text \<open>
  \<open>fit_multiple\<close>. The pseudo-inverse \<^verbatim>\<open>np.linalg.pinv\<close> is a parameter \<open>pinv\<close>
  of the model; the products check their shapes as numpy does.
\<close>

definition fit_multiple ::
  "(real matrix \<Rightarrow> real matrix) \<Rightarrow> regressor \<Rightarrow> real matrix \<Rightarrow> real list \<Rightarrow> unit outcome" where
  "fit_multiple pinv self X y =
     (case mat_mul (transpose_m X) X of
        Inl e \<Rightarrow> (Inl e, self)
      | Inr XtX \<Rightarrow>
          (case mat_mul (pinv XtX) (transpose_m X) of
             Inl e \<Rightarrow> (Inl e, self)
           | Inr PXt \<Rightarrow>
               (case mat_vec PXt y of
                  Inl e \<Rightarrow> (Inl e, self)
                | Inr w \<Rightarrow>
                    (case w of
                       [] \<Rightarrow> (Inl IndexError, self)
                     | w0 # ws \<Rightarrow>
                         (Inr (), self\<lparr>intercept := Some w0, coefficients := Some ws\<rparr>)))))"

text \<open>
  In-place \<^verbatim>\<open>c -= g\<close> on flat arrays: \<open>g\<close> is broadcast to the shape of \<open>c\<close>, never
  the other way round.
\<close>

definition isub :: "real list \<Rightarrow> real list \<Rightarrow> error + real list" where
  "isub c g =
     (if length g = length c then Inr (map2 (-) c g)
      else if length g = 1 then Inr (map (\<lambda>x. x - hd g) c)
      else Inl ShapeMismatch)"

text \<open>
  One pass through the body of the loop of \<open>fit_gradient_descent\<close>, at iteration
  \<open>epoch\<close>. The text printed at every 100000th iteration is not part of the model;
  the call of \<open>evaluate_regression\<close> made for it is, since it can raise.
\<close>

definition gd_epoch :: "real matrix \<Rightarrow> real list \<Rightarrow> real \<Rightarrow> nat \<Rightarrow> regressor \<Rightarrow> unit outcome" where
  "gd_epoch X y learning_rate epoch self =
     (case predict self (Arr2 (drop_col0 X)) of
        (Inl e, s) \<Rightarrow> (Inl e, s)
      | (Inr predictions, s) \<Rightarrow>
     (case broadcast2 (-) predictions y of
        Inl e \<Rightarrow> (Inl e, s)
      | Inr err \<Rightarrow>
     (let mse = np_mean (map (\<lambda>v. v\<^sup>2) err) in
      case loss_values s of
        None \<Rightarrow> (Inl AttributeError, s)
      | Some L \<Rightarrow>
     (let s1 = s\<lparr>loss_values := Some (L @ [mse])\<rparr> in
      case (param_history s1, intercept s1, coefficients s1) of
        (Some H, Some b, Some c) \<Rightarrow>
     (let s2 = s1\<lparr>param_history := Some (H @ [b # c])\<rparr>;
          m = length y
      in if m = 0 then (Inl ZeroDivisionError, s2)
         else
     (case mat_vec (transpose_m X) err of
        Inl e \<Rightarrow> (Inl e, s2)
      | Inr Xt_err \<Rightarrow>
     (case map (\<lambda>g. (learning_rate / real m) * g) Xt_err of
        [] \<Rightarrow> (Inl IndexError, s2)
      | g0 # g_rest \<Rightarrow>
     (let s3 = s2\<lparr>intercept := Some (b - g0)\<rparr> in
      case isub c g_rest of
        Inl e \<Rightarrow> (Inl e, s3)
      | Inr c' \<Rightarrow>
     (let s4 = s3\<lparr>coefficients := Some c'\<rparr> in
      if epoch mod 100000 = 0
      then (case evaluate_regression y predictions of
              Inl e \<Rightarrow> (Inl e, s4)
            | Inr _ \<Rightarrow> (Inr (), s4))
      else (Inr (), s4))))))
      | (None, _, _) \<Rightarrow> (Inl AttributeError, s1)
      | _ \<Rightarrow> (Inl NotFitted, s1)))))"

text \<open>\<^verbatim>\<open>for epoch in range(iterations)\<close>: \<open>k\<close> iterations remain, the next one is \<open>epoch\<close>.\<close>

fun gd_loop :: "real matrix \<Rightarrow> real list \<Rightarrow> real \<Rightarrow> nat \<Rightarrow> nat \<Rightarrow> regressor \<Rightarrow> unit outcome" where
  "gd_loop X y learning_rate epoch 0 self = (Inr (), self)"
| "gd_loop X y learning_rate epoch (Suc k) self =
     (case gd_epoch X y learning_rate epoch self of
        (Inl e, s) \<Rightarrow> (Inl e, s)
      | (Inr _, s) \<Rightarrow> gd_loop X y learning_rate (Suc epoch) k s)"

text \<open>
  \<open>fit_gradient_descent\<close>. The random generator is the sequence \<open>rng\<close> of the values
  it returns, each in \<open>[0, 1)\<close>: \<^verbatim>\<open>np.random.rand(p)\<close> takes the first \<open>p\<close> of them
  and \<^verbatim>\<open>np.random.rand()\<close> the next one. \<open>learning_rate\<close> is a Python float, so
  that dividing it by \<^verbatim>\<open>len(y) == 0\<close> raises.
\<close>

definition gd_init :: "(nat \<Rightarrow> real) \<Rightarrow> regressor \<Rightarrow> real matrix \<Rightarrow> regressor" where
  "gd_init rng self X =
     (let s1 = self\<lparr>coefficients := Some (map (\<lambda>i. rng i * (1 / 100)) [0..<ncols X - 1])\<rparr>;
          s2 = s1\<lparr>intercept := Some (rng (ncols X - 1) * (1 / 100))\<rparr>;
          s3 = s2\<lparr>loss_values := Some []\<rparr>
      in s3\<lparr>param_history := Some []\<rparr>)"

definition fit_gradient_descent ::
  "(nat \<Rightarrow> real) \<Rightarrow> regressor \<Rightarrow> real matrix \<Rightarrow> real list \<Rightarrow> real \<Rightarrow> int \<Rightarrow> unit outcome" where
  "fit_gradient_descent rng self X y learning_rate iterations =
     (if ncols X = 0 then (Inl NegativeDimension, self)
      else gd_loop X y learning_rate 0 (nat iterations) (gd_init rng self X))"

text \<open>\<open>fit\<close>, with every argument given (the defaults are \<open>0.01\<close> and \<open>1000\<close>).\<close>

definition fit ::
  "(real matrix \<Rightarrow> real matrix) \<Rightarrow> (nat \<Rightarrow> real) \<Rightarrow> regressor \<Rightarrow> ndarray \<Rightarrow> real list \<Rightarrow> string
     \<Rightarrow> real \<Rightarrow> int \<Rightarrow> unit outcome" where
  "fit pinv rng self X y method learning_rate iterations =
     (if method \<notin> set [''least_squares'', ''gradient_descent'']
      then (Inl (MethodNotAvailable method), self)
      else
        (let X2 = (case X of Arr1 xs \<Rightarrow> reshape_col xs | Arr2 M \<Rightarrow> M);
             X_with_bias = c_ones X2
         in if method = ''least_squares'' then fit_multiple pinv self X_with_bias y
            else if method = ''gradient_descent''
            then fit_gradient_descent rng self X_with_bias y learning_rate iterations
            else (Inr (), self)))"

subsection \<open>One-hot encoding\<close>

text \<open>
  The array given to \<open>one_hot_encode\<close> is its dtype and its cells. A cell is a number
  or a text. An array of dtype \<^verbatim>\<open>object\<close> holds Python values, numbers and texts
  alike; a numeric array holds numbers only; an array of a fixed-width text dtype
  (\<^verbatim>\<open><U\<close>, what \<^verbatim>\<open>np.array\<close> makes of a list of texts) holds texts only.
  Arrays of other dtypes (booleans, bytes, dates) are not modelled.
\<close>

datatype cell = is_Num: Num (un_Num: real) | is_Text: Text (un_Text: string)

datatype dtype = ObjectDT | NumberDT | TextDT

datatype cell_array = CellArray (dtype: dtype) (cells: "cell matrix")

text \<open>Python's \<^verbatim>\<open>str\<close> of an integer.\<close>

definition digit_char :: "nat \<Rightarrow> char" where
  "digit_char d = ''0123456789'' ! d"

fun str_nat :: "nat \<Rightarrow> string" where
  "str_nat n = (if n < 10 then [digit_char n] else str_nat (n div 10) @ [digit_char (n mod 10)])"

declare str_nat.simps [simp del]

definition str_int :: "int \<Rightarrow> string" where
  "str_int i = (if i < 0 then CHR ''-'' # str_nat (nat (- i)) else str_nat (nat i))"

text \<open>
  The cell that holds an integer in an array of a given dtype: \<^verbatim>\<open>np.insert\<close> converts
  the values it inserts to the dtype of the array, so that in a text array the
  integer becomes its text. (A text array is at least one character wide, which is
  all that the integers 0 and 1 need.)
\<close>

definition store_int :: "dtype \<Rightarrow> int \<Rightarrow> cell" where
  "store_int dt i = (case dt of TextDT \<Rightarrow> Text (str_int i) | _ \<Rightarrow> Num (of_int i))"

text \<open>
  \<^verbatim>\<open>np.unique\<close> of a column: the sorted distinct values. Sorting compares the cells
  as Python does, which fails on a column that mixes texts and numbers.
\<close>

definition np_unique :: "cell list \<Rightarrow> error + cell list" where
  "np_unique col =
     (if list_all is_Num col then Inr (map Num (remdups_adj (sort (map un_Num col))))
      else if list_all is_Text col then Inr (map Text (remdups_adj (sort (map un_Text col))))
      else Inl TypeError)"

text \<open>
  A Python index into an axis of length \<open>n\<close>: negative indices count from the end.
  \<^verbatim>\<open>np.insert\<close> also accepts the position \<open>n\<close>.
\<close>

definition norm_index :: "int \<Rightarrow> nat \<Rightarrow> error + nat" where
  "norm_index i n =
     (if i < - int n \<or> int n \<le> i then Inl IndexError
      else if i < 0 then Inr (nat (i + int n)) else Inr (nat i))"

definition insert_index :: "int \<Rightarrow> nat \<Rightarrow> error + nat" where
  "insert_index i n =
     (if i < - int n \<or> int n < i then Inl IndexError
      else if i < 0 then Inr (nat (i + int n)) else Inr (nat i))"

text \<open>The list comprehension that builds \<open>one_hot\<close>, an array of the integers 1 and 0.\<close>

definition one_hot_rows :: "cell list \<Rightarrow> cell list \<Rightarrow> int list list" where
  "one_hot_rows unique_values categorical_column =
     map (\<lambda>category. map (\<lambda>val. if category = val then 1 else 0) unique_values)
       categorical_column"

text \<open>
  The body of the loop of \<open>one_hot_encode\<close> for one index. \<^verbatim>\<open>np.delete\<close> and
  \<^verbatim>\<open>np.insert\<close> return an array of the dtype of \<open>X_transformed\<close>, the inserted
  integers converted to it. With no rows, \<^verbatim>\<open>np.array([])\<close> is a flat array:
  slicing its columns raises, and inserting it adds one (empty) column.
\<close>

definition ohe_step :: "cell_array \<Rightarrow> bool \<Rightarrow> cell_array \<Rightarrow> int \<Rightarrow> error + cell_array" where
  "ohe_step X drop_first X_transformed index =
     (case norm_index index (ncols (cells X)) of
        Inl e \<Rightarrow> Inl e
      | Inr j \<Rightarrow>
     (let categorical_column = map (\<lambda>r. r ! j) (rows (cells X)) in
      case np_unique categorical_column of
        Inl e \<Rightarrow> Inl e
      | Inr unique_values \<Rightarrow>
     (let one_hot = one_hot_rows unique_values categorical_column in
      if rows (cells X) = [] \<and> drop_first then Inl IndexError
      else
     (let one_hot' = (if drop_first then map (drop 1) one_hot else one_hot);
          numnew = (if rows (cells X) = [] then 1
                    else if drop_first then length unique_values - 1
                    else length unique_values)
      in case norm_index index (ncols (cells X_transformed)) of
           Inl e \<Rightarrow> Inl e
         | Inr d \<Rightarrow>
     (let deleted = Matrix (ncols (cells X_transformed) - 1)
                      (map (\<lambda>r. take d r @ drop (Suc d) r) (rows (cells X_transformed)))
      in case insert_index index (ncols deleted) of
           Inl e \<Rightarrow> Inl e
         | Inr p \<Rightarrow>
     (let values = map (map (store_int (dtype X_transformed))) one_hot'
      in Inr (CellArray (dtype X_transformed)
                (Matrix (ncols deleted + numnew)
                   (map2 (\<lambda>r ind. take p r @ ind @ drop p r) (rows deleted) values)))))))))"

text \<open>\<^verbatim>\<open>for index in sorted(categorical_indices, reverse=True)\<close>\<close>

fun ohe_loop :: "cell_array \<Rightarrow> bool \<Rightarrow> int list \<Rightarrow> cell_array \<Rightarrow> error + cell_array" where
  "ohe_loop X drop_first [] X_transformed = Inr X_transformed"
| "ohe_loop X drop_first (index # rest) X_transformed =
     (case ohe_step X drop_first X_transformed index of
        Inl e \<Rightarrow> Inl e
      | Inr X_transformed' \<Rightarrow> ohe_loop X drop_first rest X_transformed')"

text \<open>\<open>X_transformed\<close> starts as a copy of \<open>X\<close>.\<close>

definition one_hot_encode :: "cell_array \<Rightarrow> int list \<Rightarrow> bool \<Rightarrow> error + cell_array" where
  "one_hot_encode X categorical_indices drop_first =
     ohe_loop X drop_first (rev (sort categorical_indices)) X"

subsection \<open>Notions used to state the properties\<close>

text \<open>The object after the first \<open>t\<close> iterations of the loop of \<open>fit_gradient_descent\<close>.\<close>

definition gd_state ::
  "(nat \<Rightarrow> real) \<Rightarrow> regressor \<Rightarrow> real matrix \<Rightarrow> real list \<Rightarrow> real \<Rightarrow> nat \<Rightarrow> regressor" where
  "gd_state rng self X y learning_rate t = snd (gd_loop X y learning_rate 0 t (gd_init rng self X))"

text \<open>What holds of the object all along a gradient descent on \<open>p\<close> features.\<close>

definition gd_inv :: "nat \<Rightarrow> regressor \<Rightarrow> bool" where
  "gd_inv p s \<longleftrightarrow>
     (case (coefficients s, intercept s, loss_values s, param_history s) of
        (Some c, Some b, Some L, Some H) \<Rightarrow> length c = p
      | _ \<Rightarrow> False)"

text \<open>The number of feature columns of an input of \<open>fit\<close>, and the matrix \<open>fit\<close> passes on.\<close>

definition n_features :: "ndarray \<Rightarrow> nat" where
  "n_features X = (case X of Arr1 xs \<Rightarrow> 1 | Arr2 M \<Rightarrow> ncols M)"

definition with_bias :: "ndarray \<Rightarrow> real matrix" where
  "with_bias X = c_ones (case X of Arr1 xs \<Rightarrow> reshape_col xs | Arr2 M \<Rightarrow> M)"

text \<open>The products of linear algebra, on operands whose shapes agree.\<close>

definition mm :: "real matrix \<Rightarrow> real matrix \<Rightarrow> real matrix" where
  "mm A B = Matrix (ncols B) (map (\<lambda>r. map (\<lambda>c. dot r c) (rows (transpose_m B))) (rows A))"

definition mv :: "real matrix \<Rightarrow> real list \<Rightarrow> real list" where
  "mv M v = map (\<lambda>r. dot r v) (rows M)"

text \<open>
  What numpy documents of \<^verbatim>\<open>np.linalg.pinv\<close>: its result \<open>P\<close> is the Moore-Penrose
  pseudo-inverse of its argument \<open>A\<close>, the matrix of the transposed shape that
  satisfies the four Penrose equations.
\<close>

definition penrose :: "real matrix \<Rightarrow> real matrix \<Rightarrow> bool" where
  "penrose A P \<longleftrightarrow>
     wf_matrix P \<and> nrows P = ncols A \<and> ncols P = nrows A
     \<and> mm (mm A P) A = A \<and> mm (mm P A) P = P
     \<and> transpose_m (mm A P) = mm A P \<and> transpose_m (mm P A) = mm P A"

text \<open>The two parameters are unset together or set together.\<close>

definition params_inv :: "regressor \<Rightarrow> bool" where
  "params_inv s \<longleftrightarrow> (coefficients s = None) = (intercept s = None)"

text \<open>
  The order in which Python compares two cells of the same kind: numbers by value,
  texts lexicographically.
\<close>

fun cell_less :: "cell \<Rightarrow> cell \<Rightarrow> bool" where
  "cell_less (Num a) (Num b) = (a < b)"
| "cell_less (Text a) (Text b) = (a < b)"
| "cell_less _ _ = False"

definition homogeneous :: "cell list \<Rightarrow> bool" where
  "homogeneous col \<longleftrightarrow> list_all is_Num col \<or> list_all is_Text col"

definition column :: "'a matrix \<Rightarrow> nat \<Rightarrow> 'a list" where
  "column X j = map (\<lambda>r. r ! j) (rows X)"

text \<open>The categories of column \<open>j\<close>, as \<open>one_hot_encode\<close> finds them.\<close>

definition categories :: "cell matrix \<Rightarrow> nat \<Rightarrow> cell list" where
  "categories X j = (case np_unique (column X j) of Inr u \<Rightarrow> u | Inl e \<Rightarrow> [])"

text \<open>
  The encoding as the specification words it, in an array of dtype \<open>dt\<close>: the
  indicator of a value \<open>v\<close> among the categories \<open>u\<close> is a row of zeros with a one at
  the rank of \<open>v\<close> in \<open>u\<close>, the zero and the one being the cells that hold 0 and 1 in
  such an array; with \<open>drop_first\<close> its first cell is dropped; and the encoded row
  has, in place of each selected cell, the indicator of that cell.
\<close>

definition rank_of :: "cell list \<Rightarrow> cell \<Rightarrow> nat" where
  "rank_of u v = length (takeWhile (\<lambda>x. x \<noteq> v) u)"

definition indicator :: "dtype \<Rightarrow> cell list \<Rightarrow> cell \<Rightarrow> cell list" where
  "indicator dt u v = (replicate (length u) (store_int dt 0))[rank_of u v := store_int dt 1]"

definition indicator_block :: "dtype \<Rightarrow> cell list \<Rightarrow> bool \<Rightarrow> cell \<Rightarrow> cell list" where
  "indicator_block dt u drop_first v =
     (if drop_first then drop 1 (indicator dt u v) else indicator dt u v)"

definition spliced_row :: "dtype \<Rightarrow> cell matrix \<Rightarrow> nat set \<Rightarrow> bool \<Rightarrow> cell list \<Rightarrow> cell list" where
  "spliced_row dt X S drop_first r =
     concat (map (\<lambda>j. if j \<in> S then indicator_block dt (categories X j) drop_first (r ! j)
                      else [r ! j])
       [0..<ncols X])"

definition spliced_ncols :: "cell matrix \<Rightarrow> nat set \<Rightarrow> bool \<Rightarrow> nat" where
  "spliced_ncols X S drop_first =
     sum_list (map (\<lambda>j. if j \<in> S then length (categories X j) - (if drop_first then 1 else 0) else 1)
       [0..<ncols X])"

definition spliced :: "cell_array \<Rightarrow> nat set \<Rightarrow> bool \<Rightarrow> cell_array" where
  "spliced X S drop_first =
     CellArray (dtype X)
       (Matrix (spliced_ncols (cells X) S drop_first)
          (map (spliced_row (dtype X) (cells X) S drop_first) (rows (cells X))))"

text \<open>The sum of a row of number cells.\<close>

definition cell_sum :: "cell list \<Rightarrow> real" where
  "cell_sum r = sum_list (map un_Num r)"

section \<open>Properties\<close>

subsection \<open>Which errors the operations raise\<close>

lemma broadcast2_error: "broadcast2 f xs ys = Inl e \<Longrightarrow> e = ShapeMismatch"
  by (simp add: broadcast2_def split: if_splits)

lemma mat_vec_error: "mat_vec M v = Inl e \<Longrightarrow> e = ShapeMismatch"
  by (simp add: mat_vec_def split: if_splits)

lemma mat_mul_error: "mat_mul A B = Inl e \<Longrightarrow> e = ShapeMismatch"
  by (simp add: mat_mul_def split: if_splits)

lemma isub_error: "isub c g = Inl e \<Longrightarrow> e = ShapeMismatch"
  by (simp add: isub_def split: if_splits)

lemma predict_error: "fst (predict s X) = Inl e \<Longrightarrow> e = NotFitted \<or> e = ShapeMismatch"
  by (auto simp add: predict_def split: option.splits ndarray.splits sum.splits dest: broadcast2_error mat_vec_error)

lemma evaluate_regression_error:
  "evaluate_regression yt yp = Inl e \<Longrightarrow> e = ShapeMismatch \<or> e = ZeroDivisionError"
  by (auto simp add: evaluate_regression_def Let_def split: sum.splits if_splits dest: broadcast2_error)

lemma gd_epoch_not_method: "fst (gd_epoch X y lr epoch s) \<noteq> Inl (MethodNotAvailable m)"
proof
  assume a: "fst (gd_epoch X y lr epoch s) = Inl (MethodNotAvailable m)"
  obtain r s0 where p: "predict s (Arr2 (drop_col0 X)) = (r, s0)" by (cases "predict s (Arr2 (drop_col0 X))")
  with predict_error[of s "Arr2 (drop_col0 X)"] have r: "r \<noteq> Inl (MethodNotAvailable m)" by auto
  from a r show False
    unfolding gd_epoch_def p
    by (auto simp add: Let_def split: sum.splits option.splits list.splits if_splits
         dest: broadcast2_error mat_vec_error isub_error evaluate_regression_error)
qed

lemma gd_loop_not_method: "fst (gd_loop X y lr epoch k s) \<noteq> Inl (MethodNotAvailable m)"
proof (induction k arbitrary: epoch s)
  case 0
  then show ?case by simp
next
  case (Suc k)
  obtain r s1 where e: "gd_epoch X y lr epoch s = (r, s1)" by (cases "gd_epoch X y lr epoch s")
  with gd_epoch_not_method[of X y lr epoch s m] have "r \<noteq> Inl (MethodNotAvailable m)" by simp
  with e Suc.IH[of "Suc epoch" s1] show ?case by (cases r) auto
qed

lemma fit_multiple_not_method: "fst (fit_multiple pinv s X y) \<noteq> Inl (MethodNotAvailable m)"
  by (auto simp add: fit_multiple_def split: sum.splits list.splits dest: mat_mul_error mat_vec_error)

lemma fit_gradient_descent_not_method:
  "fst (fit_gradient_descent rng s X y lr T) \<noteq> Inl (MethodNotAvailable m)"
  by (simp add: fit_gradient_descent_def gd_loop_not_method)

subsection \<open>Sums over lists as sums over indices\<close>

lemma sum_list_map_nth: "sum_list (map f xs) = (\<Sum>i<length xs. f (xs ! i))"
  for f :: "'a \<Rightarrow> real"
  by (simp add: sum_list_sum_nth atLeast0LessThan)

lemma sum_list_map2_nth:
  "length xs = length ys \<Longrightarrow> sum_list (map g (map2 f xs ys)) = (\<Sum>i<length xs. g (f (xs ! i) (ys ! i)))"
  for g :: "'a \<Rightarrow> real"
  by (simp add: sum_list_sum_nth atLeast0LessThan)

lemma dot_sum: "length xs = length ys \<Longrightarrow> dot xs ys = (\<Sum>i<length xs. xs ! i * ys ! i)"
  by (simp add: dot_def sum_list_sum_nth atLeast0LessThan)

subsection \<open>Facts about \<open>predict\<close>\<close>

lemma predict_state: "snd (predict self X) = self"
  by (simp add: predict_def split: option.splits ndarray.splits sum.splits)

lemma predict_unset_iff: "fst (predict self X) = Inl NotFitted \<longleftrightarrow> coefficients self = None \<or> intercept self = None"
  by (auto simp add: predict_def broadcast2_def mat_vec_def split: option.splits ndarray.splits sum.splits if_splits)

lemma predict_2d:
  assumes "coefficients s = Some c" "intercept s = Some b" "ncols M = length c"
  shows "predict s (Arr2 M) = (Inr (map (\<lambda>r. dot r c + b) (rows M)), s)"
  using assms by (simp add: predict_def mat_vec_def comp_def)

subsection \<open>A successful fit sets both parameters\<close>

lemma gd_epoch_params_set:
  "gd_epoch X y lr epoch s = (r, s') \<Longrightarrow> coefficients s \<noteq> None \<Longrightarrow> intercept s \<noteq> None
   \<Longrightarrow> coefficients s' \<noteq> None \<and> intercept s' \<noteq> None"
  unfolding gd_epoch_def
  by (auto simp add: Let_def predict_def split: option.splits ndarray.splits sum.splits if_splits list.splits prod.splits)

lemma gd_loop_params_set:
  "gd_loop X y lr epoch k s = (r, s') \<Longrightarrow> coefficients s \<noteq> None \<Longrightarrow> intercept s \<noteq> None
   \<Longrightarrow> coefficients s' \<noteq> None \<and> intercept s' \<noteq> None"
proof (induction k arbitrary: epoch s)
  case 0
  then show ?case by simp
next
  case (Suc k)
  obtain r1 s1 where e: "gd_epoch X y lr epoch s = (r1, s1)" by (cases "gd_epoch X y lr epoch s")
  from gd_epoch_params_set[OF e] Suc.prems have s1: "coefficients s1 \<noteq> None" "intercept s1 \<noteq> None" by auto
  show ?case
  proof (cases r1)
    case (Inl e1)
    with e Suc.prems(1) have "s' = s1" by simp
    with s1 show ?thesis by simp
  next
    case (Inr u)
    with e Suc.prems(1) have "gd_loop X y lr (Suc epoch) k s1 = (r, s')" by simp
    from Suc.IH[OF this s1] show ?thesis .
  qed
qed

lemma fit_multiple_params_set:
  "fit_multiple pinv s X y = (Inr u, s') \<Longrightarrow> coefficients s' \<noteq> None \<and> intercept s' \<noteq> None"
  by (auto simp add: fit_multiple_def split: sum.splits list.splits)

lemma gd_init_params_set: "coefficients (gd_init rng s X) \<noteq> None \<and> intercept (gd_init rng s X) \<noteq> None"
  by (simp add: gd_init_def Let_def)

lemma fit_gradient_descent_params_set:
  "fit_gradient_descent rng s X y lr T = (Inr u, s') \<Longrightarrow> coefficients s' \<noteq> None \<and> intercept s' \<noteq> None"
  using gd_loop_params_set[of X y lr 0 "nat T" "gd_init rng s X" "Inr u" s'] gd_init_params_set[of rng s X]
  by (simp add: fit_gradient_descent_def split: if_splits)

lemma fit_params_set:
  assumes "fit pinv rng s X y method lr T = (Inr u, s')"
  shows "coefficients s' \<noteq> None \<and> intercept s' \<noteq> None"
proof -
  from assms have m: "method = ''least_squares'' \<or> method = ''gradient_descent''"
    by (auto simp add: fit_def split: if_splits)
  then show ?thesis
  proof
    assume "method = ''least_squares''"
    with assms show ?thesis by (simp add: fit_def Let_def fit_multiple_params_set)
  next
    assume "method = ''gradient_descent''"
    with assms show ?thesis by (simp add: fit_def Let_def fit_gradient_descent_params_set)
  qed
qed

subsection \<open>The total sum of squares\<close>

lemma total_ss_nonempty:
  "ys \<noteq> [] \<Longrightarrow> total_ss ys = (\<Sum>i<length ys. (ys ! i - (\<Sum>k<length ys. ys ! k) / real (length ys))\<^sup>2)"
  by (simp add: total_ss_def np_mean_def sum_list_sum_nth atLeast0LessThan)

lemma total_ss_eq_0:
  assumes "total_ss ys = 0" "a \<in> set ys" "b \<in> set ys"
  shows "a = b"
proof -
  from assms(2) have ne: "ys \<noteq> []" by auto
  define mu where "mu = sum_list ys / real (length ys)"
  from assms(1) ne have "sum_list (map (\<lambda>v. (v - mu)\<^sup>2) ys) = 0"
    by (simp add: total_ss_def np_mean_def mu_def)
  then have "\<forall>x\<in>set (map (\<lambda>v. (v - mu)\<^sup>2) ys). x = 0"
    by (subst (asm) sum_list_nonneg_eq_0_iff) auto
  then have "\<forall>v\<in>set ys. (v - mu)\<^sup>2 = 0" by simp
  then have m: "\<And>v. v \<in> set ys \<Longrightarrow> v = mu" by simp
  from m[OF assms(2)] m[OF assms(3)] show ?thesis by simp
qed

subsection \<open>The loop of gradient descent\<close>

lemma gd_invE:
  assumes "gd_inv p s"
  obtains c b L H where "coefficients s = Some c" "length c = p" "intercept s = Some b"
    "loss_values s = Some L" "param_history s = Some H"
  using assms by (auto simp add: gd_inv_def split: option.splits)

lemma evaluate_regression_ok:
  assumes "length yt = length yp" "yp \<noteq> []"
  shows "\<exists>d. evaluate_regression yt yp = Inr d"
  using assms by (simp add: evaluate_regression_def broadcast2_def Let_def)

lemma gd_epoch_ok:
  fixes lr :: real
  assumes X: "ncols X = Suc p" "nrows X = n" "0 < n" and y: "length y = n"
    and s: "coefficients s = Some c" "length c = p" "intercept s = Some b"
           "loss_values s = Some L" "param_history s = Some H"
  defines "preds \<equiv> map (\<lambda>r. dot (tl r) c + b) (rows X)"
  defines "err \<equiv> map2 (-) preds y"
  defines "grad \<equiv> map (\<lambda>j. (lr / real n) * dot (map (\<lambda>r. r ! j) (rows X)) err) [0..<Suc p]"
  shows "gd_epoch X y lr epoch s =
     (Inr (), s\<lparr>loss_values := Some (L @ [np_mean (map (\<lambda>v. v\<^sup>2) err)]),
               param_history := Some (H @ [b # c]),
               intercept := Some (b - grad ! 0),
               coefficients := Some (map2 (-) c (tl grad))\<rparr>)"
proof -
  have p1: "predict s (Arr2 (drop_col0 X)) = (Inr preds, s)"
    using predict_2d[of s c b "drop_col0 X"] s X by (simp add: drop_col0_def preds_def comp_def)
  have lp: "length preds = n" using X by (simp add: preds_def nrows_def)
  have b1: "broadcast2 (-) preds y = Inr err" using lp y by (simp add: broadcast2_def err_def)
  have le: "length err = n" using lp y by (simp add: err_def)
  have mv: "mat_vec (transpose_m X) err = Inr (map (\<lambda>j. dot (map (\<lambda>r. r ! j) (rows X)) err) [0..<Suc p])"
    using X le by (simp add: mat_vec_def transpose_m_def comp_def)
  have lg: "length grad = Suc p" by (simp add: grad_def)
  then obtain g0 gr where gg: "grad = g0 # gr" by (cases grad) auto
  with lg have lgr: "length gr = p" by simp
  have isb: "isub c gr = Inr (map2 (-) c gr)" using lgr s by (simp add: isub_def)
  from X lp have "preds \<noteq> []" by auto
  with evaluate_regression_ok[of y preds] lp y obtain d where ev: "evaluate_regression y preds = Inr d" by auto
  have yn: "length y \<noteq> 0" using y X by simp
  have main: "mat_vec (transpose_m X) err = Inr XtE \<Longrightarrow>
      map ((*) (lr / real (length y))) XtE = g0 # gr \<Longrightarrow>
      gd_epoch X y lr epoch s =
     (Inr (), s\<lparr>loss_values := Some (L @ [np_mean (map (\<lambda>v. v\<^sup>2) err)]),
               param_history := Some (H @ [b # c]),
               intercept := Some (b - g0),
               coefficients := Some (map2 (-) c gr)\<rparr>)" for XtE
    unfolding gd_epoch_def p1
    using b1 s isb ev yn by (simp add: Let_def del: times_divide_eq_right times_divide_eq_left)
  have g': "map ((*) (lr / real (length y))) (map (\<lambda>j. dot (map (\<lambda>r. r ! j) (rows X)) err) [0..<Suc p]) = g0 # gr"
    unfolding gg[symmetric] grad_def y by (simp only: map_map comp_def)
  have "grad ! 0 = g0" "tl grad = gr" using gg by simp_all
  with main[OF mv g'] show ?thesis by simp
qed

lemma gd_epoch_inv:
  assumes "ncols X = Suc p" "0 < nrows X" "length y = nrows X" "gd_inv p s"
  shows "\<exists>s'. gd_epoch X y lr epoch s = (Inr (), s') \<and> gd_inv p s'"
proof -
  from assms(4) obtain c b L H where s: "coefficients s = Some c" "length c = p" "intercept s = Some b"
    "loss_values s = Some L" "param_history s = Some H" by (rule gd_invE)
  have "length (map2 (-) c (tl (map (\<lambda>j. (lr / real (nrows X)) * dot (map (\<lambda>r. r ! j) (rows X))
      (map2 (-) (map (\<lambda>r. dot (tl r) c + b) (rows X)) y)) [0..<Suc p]))) = p"
    using s(2) by simp
  with gd_epoch_ok[OF assms(1) refl assms(2,3) s, of lr epoch] s show ?thesis
    by (simp add: gd_inv_def)
qed

lemma gd_loop_inv:
  assumes "ncols X = Suc p" "0 < nrows X" "length y = nrows X"
  shows "gd_inv p s \<Longrightarrow> \<exists>s'. gd_loop X y lr epoch k s = (Inr (), s') \<and> gd_inv p s'"
proof (induction k arbitrary: epoch s)
  case 0
  then show ?case by simp
next
  case (Suc k)
  from gd_epoch_inv[OF assms Suc.prems, of lr epoch]
  obtain s1 where s1: "gd_epoch X y lr epoch s = (Inr (), s1)" "gd_inv p s1" by blast
  from Suc.IH[OF s1(2), of "Suc epoch"] s1(1) show ?case by simp
qed

lemma gd_init_inv: "gd_inv (ncols X - 1) (gd_init rng self X)"
  by (simp add: gd_inv_def gd_init_def Let_def)

lemma gd_loop_add:
  "gd_loop X y lr epoch (k + j) s =
     (case gd_loop X y lr epoch k s of
        (Inl e, s1) \<Rightarrow> (Inl e, s1)
      | (Inr u, s1) \<Rightarrow> gd_loop X y lr (epoch + k) j s1)"
proof (induction k arbitrary: epoch s)
  case 0
  then show ?case by simp
next
  case (Suc k)
  show ?case
  proof (cases "gd_epoch X y lr epoch s")
    case (Pair r s1)
    then show ?thesis using Suc.IH[of "Suc epoch" s1]
      by (cases r) (simp_all split: prod.splits sum.splits)
  qed
qed

lemma gd_loop_one: "gd_loop X y lr epoch (Suc 0) s = gd_epoch X y lr epoch s"
  by (cases "gd_epoch X y lr epoch s") (auto split: sum.splits)

lemma gd_loop_Suc_right:
  "gd_loop X y lr 0 (Suc t) s =
     (case gd_loop X y lr 0 t s of
        (Inl e, s1) \<Rightarrow> (Inl e, s1)
      | (Inr u, s1) \<Rightarrow> gd_epoch X y lr t s1)"
  using gd_loop_add[of X y lr 0 t "Suc 0" s] by (simp add: gd_loop_one del: gd_loop.simps split: prod.splits sum.splits)

lemma gd_state_0: "gd_state rng self X y lr 0 = gd_init rng self X"
  by (simp add: gd_state_def)

lemma gd_state_ok:
  assumes "ncols X = Suc p" "0 < nrows X" "length y = nrows X"
  shows "gd_loop X y lr 0 t (gd_init rng self X) = (Inr (), gd_state rng self X y lr t)
     \<and> gd_inv p (gd_state rng self X y lr t)"
proof -
  from gd_init_inv[of X rng self] assms(1) have "gd_inv p (gd_init rng self X)" by simp
  from gd_loop_inv[OF assms this, of lr 0 t] show ?thesis by (auto simp add: gd_state_def)
qed

lemma gd_state_step:
  assumes "ncols X = Suc p" "0 < nrows X" "length y = nrows X"
  shows "gd_epoch X y lr t (gd_state rng self X y lr t) = (Inr (), gd_state rng self X y lr (Suc t))"
proof -
  from gd_state_ok[OF assms, of lr t rng self]
  have a: "gd_loop X y lr 0 t (gd_init rng self X) = (Inr (), gd_state rng self X y lr t)" by simp
  from gd_state_ok[OF assms, of lr "Suc t" rng self]
  have b: "gd_loop X y lr 0 (Suc t) (gd_init rng self X) = (Inr (), gd_state rng self X y lr (Suc t))" by simp
  from b show ?thesis unfolding gd_loop_Suc_right a by simp
qed

lemma map_rows_nth: "map f xs = map (\<lambda>i. f (xs ! i)) [0..<length xs]"
  by (rule nth_equalityI) simp_all

subsection \<open>What a run that returns has recorded\<close>

lemma gd_epoch_success:
  assumes "gd_epoch X y lr e s = (Inr u, s')"
  shows "\<exists>L H b c preds err. loss_values s = Some L \<and> param_history s = Some H
      \<and> intercept s = Some b \<and> coefficients s = Some c
      \<and> predict s (Arr2 (drop_col0 X)) = (Inr preds, s) \<and> broadcast2 (-) preds y = Inr err
      \<and> loss_values s' = Some (L @ [np_mean (map (\<lambda>v. v\<^sup>2) err)])
      \<and> param_history s' = Some (H @ [b # c])"
proof -
  obtain r s0 where p: "predict s (Arr2 (drop_col0 X)) = (r, s0)"
    by (cases "predict s (Arr2 (drop_col0 X))")
  with predict_state[of s "Arr2 (drop_col0 X)"] have s0: "s0 = s" by simp
  from assms show ?thesis
    unfolding gd_epoch_def p s0
    by (auto simp add: Let_def split: sum.splits option.splits list.splits if_splits)
qed

lemma gd_loop_success_history:
  "gd_loop X y lr e k s = (Inr u, s') \<Longrightarrow> loss_values s = Some L \<Longrightarrow> param_history s = Some H
   \<Longrightarrow> \<exists>L' H'. loss_values s' = Some (L @ L') \<and> length L' = k
          \<and> param_history s' = Some (H @ H') \<and> length H' = k"
proof (induction k arbitrary: e s L H)
  case 0
  then show ?case by simp
next
  case (Suc k)
  obtain r s1 where ep: "gd_epoch X y lr e s = (r, s1)" by (cases "gd_epoch X y lr e s")
  with Suc.prems(1) obtain u1 where r: "r = Inr u1" by (cases r) auto
  with ep Suc.prems(1) have rest: "gd_loop X y lr (Suc e) k s1 = (Inr u, s')" by simp
  from gd_epoch_success[OF ep[unfolded r]] Suc.prems(2,3)
  obtain m h where s1: "loss_values s1 = Some (L @ [m])" "param_history s1 = Some (H @ [h])" by auto
  from Suc.IH[OF rest s1] obtain L' H' where
    "loss_values s' = Some ((L @ [m]) @ L')" "length L' = k"
    "param_history s' = Some ((H @ [h]) @ H')" "length H' = k" by blast
  then have "loss_values s' = Some (L @ (m # L')) \<and> length (m # L') = Suc k
     \<and> param_history s' = Some (H @ (h # H')) \<and> length (h # H') = Suc k" by simp
  then show ?case by blast
qed

subsection \<open>The normal equation\<close>

lemma mat_mul_mm: "ncols A = nrows B \<Longrightarrow> mat_mul A B = Inr (mm A B)"
  by (simp add: mat_mul_def mm_def)

lemma mat_vec_mv: "ncols M = length v \<Longrightarrow> mat_vec M v = Inr (mv M v)"
  by (simp add: mat_vec_def mv_def)

lemma fit_ls_dispatch:
  "fit pinv rng self X y ''least_squares'' lr T = fit_multiple pinv self (with_bias X) y"
  by (simp add: fit_def with_bias_def Let_def)

lemma gram_entries:
  "mm (transpose_m X) X =
     Matrix (ncols X)
       (map (\<lambda>i. map (\<lambda>j. \<Sum>r<nrows X. rows X ! r ! i * rows X ! r ! j) [0..<ncols X]) [0..<ncols X])"
  by (simp add: mm_def transpose_m_def nrows_def dot_sum comp_def)

lemma pinv_Xt_entries:
  assumes "wf_matrix P" "ncols P = ncols X"
  shows "mm P (transpose_m X) =
     Matrix (nrows X)
       (map (\<lambda>a. map (\<lambda>j. \<Sum>l<ncols X. rows P ! a ! l * rows X ! j ! l) [0..<nrows X]) [0..<nrows P])"
proof -
  have len: "length (rows P ! a) = ncols X" if "a < nrows P" for a
    using assms that by (simp add: wf_matrix_def list_all_length nrows_def)
  have "map (\<lambda>r. map (\<lambda>c. dot r c) (rows (transpose_m (transpose_m X)))) (rows P)
      = map (\<lambda>a. map (\<lambda>j. \<Sum>l<ncols X. rows P ! a ! l * rows X ! j ! l) [0..<nrows X]) [0..<nrows P]"
    using len
    by (intro nth_equalityI) (simp_all add: transpose_m_def nrows_def dot_sum)
  then show ?thesis by (simp add: mm_def transpose_m_def nrows_def)
qed

lemma mv_entries:
  assumes "list_all (\<lambda>r. length r = length v) (rows M)"
  shows "mv M v = map (\<lambda>a. \<Sum>j<length v. rows M ! a ! j * v ! j) [0..<nrows M]"
  using assms
  by (intro nth_equalityI) (simp_all add: mv_def nrows_def list_all_length dot_sum)

lemma length2E:
  assumes "length xs = 2"
  obtains a b where "xs = [a, b]"
  using assms by (cases xs; cases "tl xs") auto

lemma penrose_example:
  assumes "penrose (Matrix 2 [[3, 6], [6, 14]]) P"
  shows "P = Matrix 2 [[7 / 3, - 1], [- 1, 1 / 2]]"
proof -
  obtain q rs where P: "P = Matrix q rs" by (cases P)
  from assms P have q: "q = 2" and l: "length rs = 2"
    by (simp_all add: penrose_def nrows_def)
  from assms P q have wf: "list_all (\<lambda>r. length r = 2) rs"
    by (simp add: penrose_def wf_matrix_def)
  from l obtain r1 r2 where rs: "rs = [r1, r2]" by (rule length2E)
  from wf rs have "length r1 = 2" "length r2 = 2" by simp_all
  then obtain a b c d where r: "r1 = [a, b]" "r2 = [c, d]" by (metis length2E)
  from assms have "mm (mm (Matrix 2 [[3, 6], [6, 14]]) P) (Matrix 2 [[3, 6], [6, 14]]) = Matrix 2 [[3, 6], [6, 14]]"
    by (simp add: penrose_def)
  then have eqs: "(3 * a + 6 * c) * 3 + (3 * b + 6 * d) * 6 = 3"
      "(3 * a + 6 * c) * 6 + (3 * b + 6 * d) * 14 = 6"
      "(6 * a + 14 * c) * 3 + (6 * b + 14 * d) * 6 = 6"
      "(6 * a + 14 * c) * 6 + (6 * b + 14 * d) * 14 = 14"
    unfolding P q rs r
    by (simp_all add: mm_def transpose_m_def dot_def nrows_def upt_rec numeral_2_eq_2)
  then have "a = 7 / 3" "b = - 1" "c = - 1" "d = 1 / 2" by argo+
  with P q rs r show ?thesis by simp
qed

lemma with_bias_shape: "ncols (with_bias X) = Suc (n_features X)"
  by (simp add: with_bias_def n_features_def c_ones_def reshape_col_def split: ndarray.splits)

lemma fit_multiple_ok:
  assumes P: "ncols (pinv (mm (transpose_m X) X)) = ncols X" "0 < nrows (pinv (mm (transpose_m X) X))"
    and y: "length y = nrows X"
  shows "fit_multiple pinv self X y =
     (Inr (), self\<lparr>intercept := Some (mv (mm (pinv (mm (transpose_m X) X)) (transpose_m X)) y ! 0),
                    coefficients := Some (tl (mv (mm (pinv (mm (transpose_m X) X)) (transpose_m X)) y))\<rparr>)"
proof -
  let ?P = "pinv (mm (transpose_m X) X)"
  let ?w = "mv (mm ?P (transpose_m X)) y"
  have a: "mat_mul (transpose_m X) X = Inr (mm (transpose_m X) X)"
    by (rule mat_mul_mm) (simp add: transpose_m_def)
  have "nrows (transpose_m X) = ncols X" by (simp add: transpose_m_def nrows_def)
  with P(1) have b: "mat_mul ?P (transpose_m X) = Inr (mm ?P (transpose_m X))"
    by (intro mat_mul_mm) simp
  have c: "mat_vec (mm ?P (transpose_m X)) y = Inr ?w"
    by (rule mat_vec_mv) (simp add: mm_def transpose_m_def y)
  have "length ?w = nrows ?P" by (simp add: mv_def mm_def nrows_def)
  with P(2) obtain w0 ws where w: "?w = w0 # ws" by (cases ?w) auto
  show ?thesis
    by (simp only: fit_multiple_def a sum.case b c w list.case nth_Cons_0 list.sel)
qed

subsection \<open>What a fit leaves in the object\<close>

lemma isub_length: "isub c g = Inr c' \<Longrightarrow> length c' = length c"
  by (auto simp add: isub_def split: if_splits)

lemma gd_epoch_coef_length:
  assumes "gd_epoch X y lr e s = (r, s')" "coefficients s = Some c" "intercept s \<noteq> None"
  shows "\<exists>c'. coefficients s' = Some c' \<and> length c' = length c \<and> intercept s' \<noteq> None"
proof -
  obtain r0 s0 where p: "predict s (Arr2 (drop_col0 X)) = (r0, s0)"
    by (cases "predict s (Arr2 (drop_col0 X))")
  with predict_state[of s "Arr2 (drop_col0 X)"] have s0: "s0 = s" by simp
  from assms show ?thesis
    unfolding gd_epoch_def p s0
    by (auto simp add: Let_def split: sum.splits option.splits list.splits if_splits
          dest: isub_length)
qed

lemma gd_loop_coef_length:
  "gd_loop X y lr e k s = (r, s') \<Longrightarrow> coefficients s = Some c \<Longrightarrow> intercept s \<noteq> None
   \<Longrightarrow> \<exists>c'. coefficients s' = Some c' \<and> length c' = length c \<and> intercept s' \<noteq> None"
proof (induction k arbitrary: e s c)
  case 0
  then show ?case by simp
next
  case (Suc k)
  obtain r1 s1 where ep: "gd_epoch X y lr e s = (r1, s1)" by (cases "gd_epoch X y lr e s")
  from gd_epoch_coef_length[OF ep Suc.prems(2,3)] obtain c1 where
    c1: "coefficients s1 = Some c1" "length c1 = length c" "intercept s1 \<noteq> None" by blast
  show ?case
  proof (cases r1)
    case (Inl err)
    with ep Suc.prems(1) have "s' = s1" by simp
    with c1 show ?thesis by simp
  next
    case (Inr u)
    with ep Suc.prems(1) have "gd_loop X y lr (Suc e) k s1 = (r, s')" by simp
    from Suc.IH[OF this c1(1,3)] c1(2) show ?thesis by simp
  qed
qed

lemma fit_gradient_descent_outcome:
  assumes "fit_gradient_descent rng self X y lr T = (r, s')"
  shows "(ncols X = 0 \<and> r = Inl NegativeDimension \<and> s' = self)
     \<or> (0 < ncols X \<and> (\<exists>c b. coefficients s' = Some c \<and> length c = ncols X - 1 \<and> intercept s' = Some b))"
proof (cases "ncols X = 0")
  case True
  with assms show ?thesis by (simp add: fit_gradient_descent_def)
next
  case False
  with assms have run: "gd_loop X y lr 0 (nat T) (gd_init rng self X) = (r, s')"
    by (simp add: fit_gradient_descent_def)
  have i: "coefficients (gd_init rng self X) = Some (map (\<lambda>i. rng i * (1 / 100)) [0..<ncols X - 1])"
    "intercept (gd_init rng self X) \<noteq> None"
    by (simp_all add: gd_init_def Let_def)
  from gd_loop_coef_length[OF run i] False show ?thesis by auto
qed

lemma fit_multiple_outcome:
  assumes "fit_multiple pinv self X y = (r, s')"
  shows "(r \<noteq> Inr () \<and> s' = self)
     \<or> (r = Inr () \<and> (\<exists>c b. coefficients s' = Some c \<and> intercept s' = Some b
            \<and> Suc (length c) = nrows (pinv (mm (transpose_m X) X))))"
proof -
  have a: "mat_mul (transpose_m X) X = Inr (mm (transpose_m X) X)"
    by (rule mat_mul_mm) (simp add: transpose_m_def)
  show ?thesis
  proof (cases "mat_mul (pinv (mm (transpose_m X) X)) (transpose_m X)")
    case (Inl e)
    with assms a show ?thesis by (auto simp add: fit_multiple_def)
  next
    case (Inr PXt)
    then have PXt: "PXt = mm (pinv (mm (transpose_m X) X)) (transpose_m X)"
      by (simp add: mat_mul_def mm_def split: if_splits)
    show ?thesis
    proof (cases "mat_vec PXt y")
      case (Inl e)
      with assms a \<open>mat_mul (pinv (mm (transpose_m X) X)) (transpose_m X) = Inr PXt\<close>
      show ?thesis by (auto simp add: fit_multiple_def)
    next
      case w: (Inr w)
      then have lw: "length w = nrows (pinv (mm (transpose_m X) X))"
        by (auto simp add: mat_vec_def PXt mm_def nrows_def split: if_splits)
      from assms a \<open>mat_mul (pinv (mm (transpose_m X) X)) (transpose_m X) = Inr PXt\<close> w lw
      show ?thesis by (cases w) (auto simp add: fit_multiple_def)
    qed
  qed
qed

lemma gd_init_overwrites: "gd_init rng self X = gd_init rng self2 X"
  by (simp add: gd_init_def Let_def)

lemma fit_multiple_overwrites:
  assumes "fit_multiple pinv self X y = (Inr (), s')"
  shows "\<exists>s2'. fit_multiple pinv self2 X y = (Inr (), s2')
      \<and> intercept s2' = intercept s' \<and> coefficients s2' = coefficients s'"
  using assms by (auto simp add: fit_multiple_def split: sum.splits list.splits)

lemma fit_cases:
  obtains (invalid) "method \<noteq> ''least_squares''" "method \<noteq> ''gradient_descent''"
      "fit pinv rng self X y method lr T = (Inl (MethodNotAvailable method), self)"
    | (ls) "method = ''least_squares''"
      "fit pinv rng self X y method lr T = fit_multiple pinv self (with_bias X) y"
    | (gd) "method = ''gradient_descent''"
      "fit pinv rng self X y method lr T = fit_gradient_descent rng self (with_bias X) y lr T"
  by (cases "method = ''least_squares''"; cases "method = ''gradient_descent''")
     (simp_all add: fit_def with_bias_def Let_def)

lemma fit_multiple_params_inv: "params_inv self \<Longrightarrow> params_inv (snd (fit_multiple pinv self X y))"
  using fit_multiple_outcome[of pinv self X y "fst (fit_multiple pinv self X y)" "snd (fit_multiple pinv self X y)"]
  by (auto simp add: params_inv_def)

lemma fit_gradient_descent_params_inv:
  "params_inv self \<Longrightarrow> params_inv (snd (fit_gradient_descent rng self X y lr T))"
  using fit_gradient_descent_outcome[of rng self X y lr T "fst (fit_gradient_descent rng self X y lr T)"
      "snd (fit_gradient_descent rng self X y lr T)"]
  by (auto simp add: params_inv_def)

subsection \<open>One-hot encoding: the categories and the indicator rows\<close>

lemma sorted_remdups_adj_strict:
  "sorted xs \<Longrightarrow> sorted_wrt (<) (remdups_adj xs)" for xs :: "'a::linorder list"
proof (induction xs rule: remdups_adj.induct)
  case (3 x y xs)
  then show ?case by (auto simp add: less_le)
qed simp_all

lemma np_unique_homogeneous:
  assumes "homogeneous col"
  shows "\<exists>u. np_unique col = Inr u \<and> set u = set col \<and> sorted_wrt cell_less u \<and> distinct u"
proof (cases "list_all is_Num col")
  case True
  let ?xs = "remdups_adj (sort (map un_Num col))"
  have s: "sorted_wrt (<) ?xs" by (rule sorted_remdups_adj_strict) simp
  have u: "np_unique col = Inr (map Num ?xs)" using True by (simp add: np_unique_def)
  have e: "map Num (map un_Num col) = col" using True by (induction col) auto
  have "set (map Num ?xs) = set (map Num (map un_Num col))" by (simp add: image_image)
  then have "set (map Num ?xs) = set col" unfolding e .
  moreover have "sorted_wrt cell_less (map Num ?xs)" using s by (simp add: sorted_wrt_map)
  moreover have "distinct (map Num ?xs)"
    using s by (simp add: distinct_map strict_sorted_iff inj_on_def)
  ultimately show ?thesis using u by simp
next
  case False
  with assms have T: "list_all is_Text col" by (simp add: homogeneous_def)
  let ?xs = "remdups_adj (sort (map un_Text col))"
  have s: "sorted_wrt (<) ?xs" by (rule sorted_remdups_adj_strict) simp
  have u: "np_unique col = Inr (map Text ?xs)" using False T by (simp add: np_unique_def)
  have e: "map Text (map un_Text col) = col" using T by (induction col) auto
  have "set (map Text ?xs) = set (map Text (map un_Text col))" by (simp add: image_image)
  then have "set (map Text ?xs) = set col" unfolding e .
  moreover have "sorted_wrt cell_less (map Text ?xs)" using s by (simp add: sorted_wrt_map)
  moreover have "distinct (map Text ?xs)"
    using s by (simp add: distinct_map strict_sorted_iff inj_on_def)
  ultimately show ?thesis using u by simp
qed

lemma categories_homogeneous:
  assumes "homogeneous (column X j)"
  shows "np_unique (column X j) = Inr (categories X j)"
    and "set (categories X j) = set (column X j)"
    and "sorted_wrt cell_less (categories X j)"
    and "distinct (categories X j)"
proof -
  from np_unique_homogeneous[OF assms] obtain u where
    u: "np_unique (column X j) = Inr u" "set u = set (column X j)" "sorted_wrt cell_less u" "distinct u"
    by blast
  from u(1) have c: "categories X j = u" by (simp add: categories_def)
  show "np_unique (column X j) = Inr (categories X j)" unfolding c by (rule u(1))
  show "set (categories X j) = set (column X j)" unfolding c by (rule u(2))
  show "sorted_wrt cell_less (categories X j)" unfolding c by (rule u(3))
  show "distinct (categories X j)" unfolding c by (rule u(4))
qed

lemma str_int_bits: "str_int 0 = ''0''" "str_int 1 = ''1''"
  by (simp_all add: str_int_def str_nat.simps digit_char_def)

lemma store_int_bits:
  "store_int dt 0 = (if dt = TextDT then Text ''0'' else Num 0)"
  "store_int dt 1 = (if dt = TextDT then Text ''1'' else Num 1)"
  by (cases dt; simp add: store_int_def str_int_bits)+

lemma store_int_bits_neq: "store_int dt 0 \<noteq> store_int dt 1"
  by (simp add: store_int_bits)

lemma comprehension_indicator:
  "distinct u \<Longrightarrow> v \<in> set u \<Longrightarrow>
     map (store_int dt) (map (\<lambda>val. if v = val then 1 else 0) u) = indicator dt u v"
proof (induction u)
  case Nil
  then show ?case by simp
next
  case (Cons x xs)
  show ?case
  proof (cases "v = x")
    case True
    with Cons.prems have "v \<notin> set xs" by simp
    then have "map (store_int dt) (map (\<lambda>val. if v = val then 1 else 0) xs)
        = replicate (length xs) (store_int dt 0)"
      by (induction xs) auto
    with True show ?thesis by (simp add: indicator_def rank_of_def)
  next
    case False
    with Cons.prems have "v \<in> set xs" "distinct xs" by simp_all
    with Cons.IH have "map (store_int dt) (map (\<lambda>val. if v = val then 1 else 0) xs) = indicator dt xs v"
      by simp
    with False show ?thesis by (simp add: indicator_def rank_of_def)
  qed
qed

lemma one_hot_rows_indicator:
  assumes "distinct u" "set col \<subseteq> set u"
  shows "map (map (store_int dt)) (if df then map (drop 1) (one_hot_rows u col) else one_hot_rows u col)
       = map (indicator_block dt u df) col"
proof -
  have one: "map (store_int dt) (map (\<lambda>val. if v = val then 1 else 0) u) = indicator dt u v"
    if "v \<in> set col" for v
    using that assms by (intro comprehension_indicator) auto
  have "map (store_int dt) (if df then drop 1 (map (\<lambda>val. if v = val then 1 else 0) u)
                             else map (\<lambda>val. if v = val then 1 else 0) u)
      = indicator_block dt u df v" if "v \<in> set col" for v
    using one[OF that] by (simp add: indicator_block_def drop_map[symmetric] del: map_map)
  then have "map (\<lambda>v. map (store_int dt) (if df then drop 1 (map (\<lambda>val. if v = val then 1 else 0) u)
                             else map (\<lambda>val. if v = val then 1 else 0) u)) col
      = map (indicator_block dt u df) col"
    by (intro map_cong) simp_all
  then show ?thesis by (cases df) (simp_all add: one_hot_rows_def comp_def)
qed

lemma rank_of_less: "v \<in> set u \<Longrightarrow> rank_of u v < length u"
  unfolding rank_of_def by (induction u) auto

lemma rank_of_nth: "v \<in> set u \<Longrightarrow> u ! rank_of u v = v"
  unfolding rank_of_def by (induction u) auto

lemma indicator_length: "length (indicator dt u v) = length u"
  by (simp add: indicator_def)

lemma indicator_nth:
  "k < length u \<Longrightarrow> indicator dt u v ! k = (if k = rank_of u v then store_int dt 1 else store_int dt 0)"
  by (auto simp add: indicator_def)

lemma indicator_block_length:
  "length (indicator_block dt u df v) = length u - (if df then 1 else 0)"
  by (simp add: indicator_block_def indicator_length)

lemma indicator_block_nth:
  assumes "k < length u - (if df then 1 else 0)"
  shows "indicator_block dt u df v ! k
       = (if k + (if df then 1 else 0) = rank_of u v then store_int dt 1 else store_int dt 0)"
proof (cases df)
  case True
  with assms have k: "Suc k < length u" by simp
  then have "drop 1 (indicator dt u v) ! k = indicator dt u v ! Suc k"
    by (simp add: indicator_length)
  with True indicator_nth[OF k, of dt v] show ?thesis by (simp add: indicator_block_def)
next
  case False
  with assms indicator_nth[of k u dt v] show ?thesis by (simp add: indicator_block_def)
qed

lemma indicator_block_binary: "set (indicator_block dt u df v) \<subseteq> {store_int dt 0, store_int dt 1}"
proof -
  have "set (indicator dt u v) \<subseteq> {store_int dt 0, store_int dt 1}"
    unfolding indicator_def
    using set_update_subset_insert[of "replicate (length u) (store_int dt 0)" "rank_of u v" "store_int dt 1"]
    by auto
  moreover have "set (drop 1 (indicator dt u v)) \<subseteq> set (indicator dt u v)" by (rule set_drop_subset)
  ultimately show ?thesis by (auto simp add: indicator_block_def)
qed

lemma count_zeros: "z \<noteq> e \<Longrightarrow> count_list (replicate n z) e = 0"
  by (induction n) simp_all

lemma count_unit:
  "z \<noteq> e \<Longrightarrow> r < n \<Longrightarrow> count_list ((replicate n z)[r := e]) e = 1"
proof (induction n arbitrary: r)
  case 0
  then show ?case by simp
next
  case (Suc n)
  show ?case
  proof (cases r)
    case 0
    then show ?thesis using count_zeros[OF Suc.prems(1), of n] by simp
  next
    case (Suc r')
    with Suc.prems have "r' < n" by simp
    from Suc.IH[OF Suc.prems(1) this] Suc Suc.prems(1) show ?thesis by simp
  qed
qed

lemma count_indicator: "v \<in> set u \<Longrightarrow> count_list (indicator dt u v) (store_int dt 1) = 1"
  unfolding indicator_def by (rule count_unit[OF store_int_bits_neq]) (rule rank_of_less)

lemma count_indicator_drop:
  assumes "v \<in> set u"
  shows "count_list (drop 1 (indicator dt u v)) (store_int dt 1) = (if rank_of u v = 0 then 0 else 1)"
proof -
  from rank_of_less[OF assms] obtain n where n: "length u = Suc n" by (cases "length u") auto
  show ?thesis
  proof (cases "rank_of u v")
    case 0
    then show ?thesis using n count_zeros[OF store_int_bits_neq, of n dt] by (simp add: indicator_def)
  next
    case (Suc r')
    with rank_of_less[OF assms] n have "r' < n" by simp
    from count_unit[OF store_int_bits_neq this, of dt] Suc n show ?thesis by (simp add: indicator_def)
  qed
qed

lemma cell_sum_zeros: "cell_sum (replicate n (Num 0)) = 0"
  by (induction n) (simp_all add: cell_sum_def)

lemma cell_sum_unit:
  "r < n \<Longrightarrow> cell_sum ((replicate n (Num 0))[r := Num 1]) = 1"
proof (induction n arbitrary: r)
  case 0
  then show ?case by simp
next
  case (Suc n)
  show ?case
  proof (cases r)
    case 0
    then show ?thesis using cell_sum_zeros[of n] by (simp add: cell_sum_def)
  next
    case (Suc r')
    with Suc.prems have "r' < n" by simp
    from Suc.IH[OF this] Suc show ?thesis by (simp add: cell_sum_def)
  qed
qed

lemma cell_sum_indicator:
  assumes "dt \<noteq> TextDT" "v \<in> set u"
  shows "cell_sum (indicator dt u v) = 1"
  using cell_sum_unit[OF rank_of_less[OF assms(2)]] assms(1)
  by (simp add: indicator_def store_int_bits)

lemma cell_sum_indicator_drop:
  assumes "dt \<noteq> TextDT" "v \<in> set u"
  shows "cell_sum (drop 1 (indicator dt u v)) = (if rank_of u v = 0 then 0 else 1)"
proof -
  from rank_of_less[OF assms(2)] obtain n where n: "length u = Suc n" by (cases "length u") auto
  show ?thesis
  proof (cases "rank_of u v")
    case 0
    then show ?thesis using n assms(1) cell_sum_zeros[of n] by (simp add: indicator_def store_int_bits)
  next
    case (Suc r')
    with rank_of_less[OF assms(2)] n have "r' < n" by simp
    from cell_sum_unit[OF this] Suc n assms(1) show ?thesis by (simp add: indicator_def store_int_bits)
  qed
qed

lemma indicator_block_inj:
  assumes d: "distinct u" and v: "v \<in> set u" and v': "v' \<in> set u" and ne: "v \<noteq> v'"
  shows "indicator_block dt u df v \<noteq> indicator_block dt u df v'"
proof
  assume eq: "indicator_block dt u df v = indicator_block dt u df v'"
  have rne: "rank_of u v \<noteq> rank_of u v'"
    using rank_of_nth[OF v] rank_of_nth[OF v'] ne by metis
  define c where "c = (if df then 1 else 0 :: nat)"
  have contra: False
    if a: "a \<in> set u" and b: "b \<in> set u" and e: "indicator_block dt u df a = indicator_block dt u df b"
      and ab: "rank_of u a \<noteq> rank_of u b" and pos: "c \<le> rank_of u a" for a b
  proof -
    define k where "k = rank_of u a - c"
    have k: "k < length u - (if df then 1 else 0)" "k + (if df then 1 else 0) = rank_of u a"
      using rank_of_less[OF a] pos by (auto simp add: k_def c_def)
    from indicator_block_nth[OF k(1), of dt a] k(2)
    have "indicator_block dt u df a ! k = store_int dt 1" by simp
    moreover from indicator_block_nth[OF k(1), of dt b] k(2) ab
    have "indicator_block dt u df b ! k = store_int dt 0" by simp
    ultimately show False using e store_int_bits_neq[of dt] by simp
  qed
  show False
  proof (cases "c \<le> rank_of u v")
    case True
    from contra[OF v v' eq rne True] show False .
  next
    case False
    then have "rank_of u v = 0" by (simp add: c_def split: if_splits)
    with rne have "c \<le> rank_of u v'" by (simp add: c_def)
    from contra[OF v' v eq[symmetric] rne[symmetric] this] show False .
  qed
qed

subsection \<open>One-hot encoding: the loop\<close>

lemma concat_singletons: "j \<le> length r \<Longrightarrow> concat (map (\<lambda>i. [r ! i]) [0..<j]) = take j r"
proof (induction j)
  case 0
  then show ?case by simp
next
  case (Suc j)
  then show ?case by (simp add: take_Suc_conv_app_nth)
qed

lemma upt_split3:
  assumes "j < q"
  shows "[0..<q] = [0..<j] @ [j] @ [Suc j..<q]"
proof -
  from assms have "[0..<q] = [0..<j + (q - j)]" by simp
  also have "\<dots> = [0..<j] @ [j..<j + (q - j)]" by (rule upt_add_eq_append) simp
  also have "[j..<j + (q - j)] = j # [Suc j..<q]" using assms by (simp add: upt_conv_Cons)
  finally show ?thesis by simp
qed

lemma spliced_row_split:
  fixes df :: bool and dt :: dtype
  assumes j: "j < ncols X" and r: "length r = ncols X" and S: "\<forall>s\<in>S. j < s"
  defines "rest \<equiv> concat (map (\<lambda>i. if i \<in> S then indicator_block dt (categories X i) df (r ! i) else [r ! i])
              [Suc j..<ncols X])"
  shows "spliced_row dt X S df r = take j r @ [r ! j] @ rest"
    and "spliced_row dt X (insert j S) df r = take j r @ indicator_block dt (categories X j) df (r ! j) @ rest"
proof -
  have low: "map (\<lambda>i. if i \<in> S then indicator_block dt (categories X i) df (r ! i) else [r ! i]) [0..<j]
      = map (\<lambda>i. [r ! i]) [0..<j]"
    using S by auto
  have low': "map (\<lambda>i. if i \<in> insert j S then indicator_block dt (categories X i) df (r ! i) else [r ! i]) [0..<j]
      = map (\<lambda>i. [r ! i]) [0..<j]"
    using S by auto
  have high: "map (\<lambda>i. if i \<in> insert j S then indicator_block dt (categories X i) df (r ! i) else [r ! i])
        [Suc j..<ncols X]
      = map (\<lambda>i. if i \<in> S then indicator_block dt (categories X i) df (r ! i) else [r ! i]) [Suc j..<ncols X]"
    by auto
  have jS: "j \<notin> S" using S by auto
  have tk: "concat (map (\<lambda>i. [r ! i]) [0..<j]) = take j r"
    using j r by (intro concat_singletons) simp
  show "spliced_row dt X S df r = take j r @ [r ! j] @ rest"
    unfolding spliced_row_def upt_split3[OF j] map_append concat_append low tk rest_def
    using jS by simp
  show "spliced_row dt X (insert j S) df r = take j r @ indicator_block dt (categories X j) df (r ! j) @ rest"
    unfolding spliced_row_def upt_split3[OF j] map_append concat_append low' high tk rest_def
    by simp
qed

lemma spliced_ncols_split:
  fixes df :: bool and dt :: dtype
  assumes j: "j < ncols X" and S: "\<forall>s\<in>S. j < s"
  defines "rest \<equiv> sum_list (map (\<lambda>i. if i \<in> S then length (categories X i) - (if df then 1 else 0) else 1)
              [Suc j..<ncols X])"
  shows "spliced_ncols X S df = j + 1 + rest"
    and "spliced_ncols X (insert j S) df = j + (length (categories X j) - (if df then 1 else 0)) + rest"
proof -
  have low: "map (\<lambda>i. if i \<in> S then length (categories X i) - (if df then 1 else 0) else 1) [0..<j]
      = map (\<lambda>i. 1) [0..<j]"
    using S by auto
  have low': "map (\<lambda>i. if i \<in> insert j S then length (categories X i) - (if df then 1 else 0) else 1) [0..<j]
      = map (\<lambda>i. 1) [0..<j]"
    using S by auto
  have high: "map (\<lambda>i. if i \<in> insert j S then length (categories X i) - (if df then 1 else 0) else 1)
        [Suc j..<ncols X]
      = map (\<lambda>i. if i \<in> S then length (categories X i) - (if df then 1 else 0) else 1) [Suc j..<ncols X]"
    by auto
  have jS: "j \<notin> S" using S by auto
  have ones: "sum_list (map (\<lambda>i. 1) [0..<j]) = j" by (simp add: sum_list_triv)
  show "spliced_ncols X S df = j + 1 + rest"
    unfolding spliced_ncols_def upt_split3[OF j] map_append sum_list_append low ones rest_def
    using jS by simp
  show "spliced_ncols X (insert j S) df = j + (length (categories X j) - (if df then 1 else 0)) + rest"
    unfolding spliced_ncols_def upt_split3[OF j] map_append sum_list_append low' high ones rest_def
    by simp
qed

lemma map2_map_map: "map2 f (map g xs) (map h xs) = map (\<lambda>x. f (g x) (h x)) xs"
  by (induction xs) simp_all

lemma ohe_step_spliced:
  fixes df :: bool
  assumes wf: "wf_matrix (cells X)" and ne: "rows (cells X) \<noteq> []"
    and i: "0 \<le> i" "i < int (ncols (cells X))"
    and hom: "homogeneous (column (cells X) (nat i))"
    and S: "\<forall>s\<in>S. nat i < s"
  shows "ohe_step X df (spliced X S df) i = Inr (spliced X (insert (nat i) S) df)"
proof -
  define M where "M = cells X"
  define dt where "dt = dtype X"
  define j where "j = nat i"
  define u where "u = categories M j"
  define w where "w = length u - (if df then 1 else 0)"
  define rest where "rest = sum_list (map (\<lambda>i. if i \<in> S then length (categories M i) - (if df then 1 else 0) else 1)
              [Suc j..<ncols M])"
  have j: "j < ncols M" using i by (simp add: j_def M_def)
  have Sj: "\<forall>s\<in>S. j < s" using S by (simp add: j_def)
  have hom': "homogeneous (column M j)" using hom by (simp add: M_def j_def)
  have n1: "norm_index i (ncols M) = Inr j" using i by (simp add: norm_index_def j_def M_def)
  have uq: "np_unique (map (\<lambda>r. r ! j) (rows M)) = Inr u"
    using categories_homogeneous(1)[OF hom'] by (simp add: column_def u_def)
  have du: "distinct u" "set (map (\<lambda>r. r ! j) (rows M)) \<subseteq> set u"
    using categories_homogeneous(2,4)[OF hom'] by (simp_all add: column_def u_def)
  have oh: "map (map (store_int dt))
            (if df then map (drop 1) (one_hot_rows u (map (\<lambda>r. r ! j) (rows M)))
             else one_hot_rows u (map (\<lambda>r. r ! j) (rows M)))
       = map (indicator_block dt u df) (map (\<lambda>r. r ! j) (rows M))"
    by (rule one_hot_rows_indicator[OF du])
  have nc: "spliced_ncols M S df = j + 1 + rest"
    unfolding rest_def by (rule spliced_ncols_split(1)[OF j Sj])
  have nc': "spliced_ncols M (insert j S) df = j + w + rest"
    unfolding rest_def w_def u_def by (rule spliced_ncols_split(2)[OF j Sj])
  have n2: "norm_index i (spliced_ncols M S df) = Inr j"
    using i unfolding nc by (simp add: norm_index_def j_def)
  have n3: "insert_index i (spliced_ncols M S df - 1) = Inr j"
    using i unfolding nc by (simp add: insert_index_def j_def)
  have numnew: "(if rows M = [] then 1 else if df then length u - 1 else length u) = w"
    using ne by (simp add: w_def M_def)
  have row: "take j (take j (spliced_row dt M S df r) @ drop (Suc j) (spliced_row dt M S df r))
        @ indicator_block dt u df (r ! j)
        @ drop j (take j (spliced_row dt M S df r) @ drop (Suc j) (spliced_row dt M S df r))
      = spliced_row dt M (insert j S) df r" if "r \<in> set (rows M)" for r
  proof -
    from wf that have lr: "length r = ncols M" by (simp add: wf_matrix_def list_all_iff M_def)
    define tail where "tail = concat (map (\<lambda>i. if i \<in> S then indicator_block dt (categories M i) df (r ! i) else [r ! i])
              [Suc j..<ncols M])"
    have a: "spliced_row dt M S df r = take j r @ [r ! j] @ tail"
      unfolding tail_def by (rule spliced_row_split(1)[OF j lr Sj])
    have b: "spliced_row dt M (insert j S) df r = take j r @ indicator_block dt u df (r ! j) @ tail"
      unfolding tail_def u_def by (rule spliced_row_split(2)[OF j lr Sj])
    have lt: "length (take j r) = j" using j lr by simp
    have d: "take j (take j r @ [r ! j] @ tail) = take j r" using lt by simp
    have e: "drop (Suc j) (take j r @ [r ! j] @ tail) = tail" using lt by simp
    have f: "take j (take j r @ tail) = take j r" "drop j (take j r @ tail) = tail" using lt by simp_all
    show ?thesis unfolding a b d e f by simp
  qed
  have rows_eq: "map2 (\<lambda>r ind. take j r @ ind @ drop j r)
        (map (\<lambda>r. take j r @ drop (Suc j) r) (map (spliced_row dt M S df) (rows M)))
        (map (indicator_block dt u df) (map (\<lambda>r. r ! j) (rows M)))
      = map (spliced_row dt M (insert j S) df) (rows M)"
    unfolding map_map comp_def map2_map_map using row by simp
  have ne': "rows M \<noteq> []" using ne by (simp add: M_def)
  have "ohe_step X df (spliced X S df) i
      = Inr (CellArray dt (Matrix (spliced_ncols M S df - 1 + w)
                (map (spliced_row dt M (insert j S) df) (rows M))))"
    unfolding ohe_step_def spliced_def M_def[symmetric] dt_def[symmetric]
    using n1 uq ne' oh n2 n3 numnew rows_eq
    by (simp add: Let_def)
  also have "spliced_ncols M S df - 1 + w = spliced_ncols M (insert j S) df"
    unfolding nc nc' by simp
  finally show ?thesis by (simp add: spliced_def j_def M_def dt_def)
qed

lemma ohe_loop_spliced:
  fixes df :: bool
  assumes wf: "wf_matrix (cells X)" and ne: "rows (cells X) \<noteq> []"
  shows "sorted_wrt (\<lambda>a b. b < a) ds
    \<Longrightarrow> \<forall>i\<in>set ds. 0 \<le> i \<and> i < int (ncols (cells X)) \<and> homogeneous (column (cells X) (nat i))
    \<Longrightarrow> \<forall>s\<in>S. \<forall>i\<in>set ds. nat i < s
    \<Longrightarrow> ohe_loop X df ds (spliced X S df) = Inr (spliced X (S \<union> nat ` set ds) df)"
proof (induction ds arbitrary: S)
  case Nil
  then show ?case by simp
next
  case (Cons i ds)
  from Cons.prems(2) have i: "0 \<le> i" "i < int (ncols (cells X))"
    "homogeneous (column (cells X) (nat i))" by simp_all
  from Cons.prems(3) have Si: "\<forall>s\<in>S. nat i < s" by simp
  have step: "ohe_step X df (spliced X S df) i = Inr (spliced X (insert (nat i) S) df)"
    by (rule ohe_step_spliced[OF wf ne i Si])
  have srt: "sorted_wrt (\<lambda>a b. b < a) ds" using Cons.prems(1) by simp
  have rng: "\<forall>k\<in>set ds. 0 \<le> k \<and> k < int (ncols (cells X)) \<and> homogeneous (column (cells X) (nat k))"
    using Cons.prems(2) by simp
  have below: "\<forall>s\<in>insert (nat i) S. \<forall>k\<in>set ds. nat k < s"
  proof (intro ballI)
    fix s k assume s: "s \<in> insert (nat i) S" and k: "k \<in> set ds"
    from k Cons.prems(1) have "k < i" by simp
    moreover from k rng have "0 \<le> k" by simp
    ultimately have "nat k < nat i" by simp
    with s Cons.prems(3) k show "nat k < s" by auto
  qed
  from Cons.IH[OF srt rng below] step
  show ?case by simp
qed

lemma spliced_empty:
  assumes "wf_matrix (cells X)"
  shows "spliced X {} df = X"
proof -
  have "spliced_row (dtype X) (cells X) {} df r = r" if "r \<in> set (rows (cells X))" for r
  proof -
    from assms that have "length r = ncols (cells X)" by (simp add: wf_matrix_def list_all_iff)
    then show ?thesis using concat_singletons[of "ncols (cells X)" r] by (simp add: spliced_row_def)
  qed
  then have "map (spliced_row (dtype X) (cells X) {} df) (rows (cells X)) = rows (cells X)"
    by (simp add: map_idI)
  moreover have "spliced_ncols (cells X) {} df = ncols (cells X)"
    by (simp add: spliced_ncols_def sum_list_triv)
  ultimately show ?thesis by (cases X; cases "cells X") (simp add: spliced_def)
qed

lemma one_hot_encode_spliced:
  fixes df :: bool
  assumes wf: "wf_matrix (cells X)" and ne: "rows (cells X) \<noteq> []" and d: "distinct idxs"
    and ok: "\<forall>i\<in>set idxs. 0 \<le> i \<and> i < int (ncols (cells X)) \<and> homogeneous (column (cells X) (nat i))"
  shows "one_hot_encode X idxs df = Inr (spliced X (nat ` set idxs) df)"
proof -
  have "sorted_wrt (<) (sort idxs)" using d by (simp add: strict_sorted_iff)
  then have s: "sorted_wrt (\<lambda>a b. b < a) (rev (sort idxs))" by (simp add: sorted_wrt_rev)
  have r: "\<forall>i\<in>set (rev (sort idxs)). 0 \<le> i \<and> i < int (ncols (cells X)) \<and> homogeneous (column (cells X) (nat i))"
    using ok by simp
  from ohe_loop_spliced[OF wf ne s r, of "{}" df]
  show ?thesis by (simp add: one_hot_encode_def spliced_empty[OF wf])
qed

subsection \<open>The method check of \<open>fit\<close>\<close>

text \<open>
  Claim C7. \<open>fit\<close> raises the error for an unavailable method exactly when \<open>method\<close>
  is neither \<^verbatim>\<open>"least_squares"\<close> nor \<^verbatim>\<open>"gradient_descent"\<close>; when it does, the
  error carries that method and the object is returned as it was given, no
  attribute written.
\<close>

theorem fit_invalid_method:
  "((\<exists>m. fst (fit pinv rng self X y method lr T) = Inl (MethodNotAvailable m))
      \<longleftrightarrow> method \<noteq> ''least_squares'' \<and> method \<noteq> ''gradient_descent'')
   \<and> (method \<noteq> ''least_squares'' \<and> method \<noteq> ''gradient_descent''
      \<longrightarrow> fit pinv rng self X y method lr T = (Inl (MethodNotAvailable method), self))"
  by (simp add: fit_def Let_def fit_multiple_not_method fit_gradient_descent_not_method)

theorem fit_invalid_method_witness:
  "(\<exists>m. fst (fit (\<lambda>A. A) (\<lambda>i. 0) init (Arr1 [1, 2]) [3, 4] ''ridge'' (1/100) 1000) = Inl (MethodNotAvailable m))
   \<and> fit (\<lambda>A. A) (\<lambda>i. 0) init (Arr1 [1, 2]) [3, 4] ''ridge'' (1/100) 1000 = (Inl (MethodNotAvailable ''ridge''), init)"
  using fit_invalid_method[of "\<lambda>A. A" "\<lambda>i. 0" init "Arr1 [1, 2]" "[3, 4]" "''ridge''" "1/100" 1000]
  by simp

subsection \<open>Prediction\<close>

text \<open>
  Claim C5. On a fitted model, \<open>predict\<close> of a flat array is \<open>x * w + b\<close> for every
  element \<open>x\<close> when there is exactly one coefficient \<open>w\<close>; with another number of
  coefficients the product is not defined unless the lengths happen to broadcast. On
  a 2D array without bias column (as many columns as coefficients) it is, row by
  row, the dot product with the coefficients plus the intercept; a 2D array with
  another number of columns is rejected. \<open>predict\<close> leaves the object as it was.
\<close>

theorem predict_fitted:
  assumes "coefficients self = Some c" and "intercept self = Some b"
  shows "(\<forall>w. c = [w] \<longrightarrow> predict self (Arr1 xs) = (Inr (map (\<lambda>x. x * w + b) xs), self))
    \<and> (length c \<noteq> 1 \<and> length xs \<noteq> 1 \<and> length xs \<noteq> length c
          \<longrightarrow> predict self (Arr1 xs) = (Inl ShapeMismatch, self))
    \<and> (wf_matrix M \<and> ncols M = length c
          \<longrightarrow> predict self (Arr2 M)
              = (Inr (map (\<lambda>r. (\<Sum>j<length c. r ! j * c ! j) + b) (rows M)), self))
    \<and> (ncols M \<noteq> length c \<longrightarrow> predict self (Arr2 M) = (Inl ShapeMismatch, self))
    \<and> snd (predict self X) = self"
proof (intro conjI allI impI)
  fix w assume "c = [w]"
  with assms show "predict self (Arr1 xs) = (Inr (map (\<lambda>x. x * w + b) xs), self)"
    by (cases "length xs = 1") (auto simp add: predict_def broadcast2_def comp_def length_Suc_conv)
next
  assume "length c \<noteq> 1 \<and> length xs \<noteq> 1 \<and> length xs \<noteq> length c"
  with assms show "predict self (Arr1 xs) = (Inl ShapeMismatch, self)"
    by (simp add: predict_def broadcast2_def)
next
  assume a: "wf_matrix M \<and> ncols M = length c"
  then have "\<forall>r\<in>set (rows M). length r = length c" by (simp add: wf_matrix_def list_all_iff)
  then have "map (\<lambda>r. dot r c + b) (rows M) = map (\<lambda>r. (\<Sum>j<length c. r ! j * c ! j) + b) (rows M)"
    by (simp add: dot_sum)
  with predict_2d[OF assms, of M] a
  show "predict self (Arr2 M) = (Inr (map (\<lambda>r. (\<Sum>j<length c. r ! j * c ! j) + b) (rows M)), self)"
    by simp
next
  assume "ncols M \<noteq> length c"
  with assms show "predict self (Arr2 M) = (Inl ShapeMismatch, self)"
    by (simp add: predict_def mat_vec_def)
next
  show "snd (predict self X) = self" by (rule predict_state)
qed

theorem predict_fitted_witness:
  "predict \<lparr>coefficients = Some [2], intercept = Some 1, loss_values = None, param_history = None\<rparr>
      (Arr1 [1, 2, 3])
    = (Inr [3, 5, 7], \<lparr>coefficients = Some [2], intercept = Some 1, loss_values = None, param_history = None\<rparr>)
   \<and> predict \<lparr>coefficients = Some [2, 3], intercept = Some 1, loss_values = None, param_history = None\<rparr>
      (Arr1 [1, 2, 3])
    = (Inl ShapeMismatch, \<lparr>coefficients = Some [2, 3], intercept = Some 1, loss_values = None, param_history = None\<rparr>)
   \<and> predict \<lparr>coefficients = Some [2, 3], intercept = Some 1, loss_values = None, param_history = None\<rparr>
      (Arr2 (Matrix 2 [[1, 1], [0, 2]]))
    = (Inr [6, 7], \<lparr>coefficients = Some [2, 3], intercept = Some 1, loss_values = None, param_history = None\<rparr>)
   \<and> predict \<lparr>coefficients = Some [2, 3], intercept = Some 1, loss_values = None, param_history = None\<rparr>
      (Arr2 (Matrix 3 [[1, 1, 1], [1, 0, 2]]))
    = (Inl ShapeMismatch, \<lparr>coefficients = Some [2, 3], intercept = Some 1, loss_values = None, param_history = None\<rparr>)"
  using predict_fitted[of "\<lparr>coefficients = Some [2], intercept = Some 1, loss_values = None, param_history = None\<rparr>"
          "[2]" 1 "[1, 2, 3]"]
        predict_fitted[of "\<lparr>coefficients = Some [2, 3], intercept = Some 1, loss_values = None, param_history = None\<rparr>"
          "[2, 3]" 1 "[1, 2, 3]" "Matrix 2 [[1, 1], [0, 2]]"]
        predict_fitted[of "\<lparr>coefficients = Some [2, 3], intercept = Some 1, loss_values = None, param_history = None\<rparr>"
          "[2, 3]" 1 "[1, 2, 3]" "Matrix 3 [[1, 1, 1], [1, 0, 2]]"]
  by (simp add: wf_matrix_def lessThan_Suc numeral_2_eq_2)

text \<open>
  Claim C6. Whatever the input, \<open>predict\<close> raises the not-fitted error exactly when
  the coefficients or the intercept are unset. It does so on a new object, and it
  does not after a call of \<open>fit\<close> that returned.
\<close>

theorem predict_not_fitted_iff:
  "(fst (predict self X) = Inl NotFitted \<longleftrightarrow> coefficients self = None \<or> intercept self = None)
   \<and> predict init X = (Inl NotFitted, init)
   \<and> (fst (fit pinv rng self0 X0 y method lr T) = Inr ()
        \<longrightarrow> fst (predict (snd (fit pinv rng self0 X0 y method lr T)) X) \<noteq> Inl NotFitted)"
proof (intro conjI impI)
  show "fst (predict self X) = Inl NotFitted \<longleftrightarrow> coefficients self = None \<or> intercept self = None"
    by (rule predict_unset_iff)
  show "predict init X = (Inl NotFitted, init)"
    by (simp add: predict_def init_def)
  assume "fst (fit pinv rng self0 X0 y method lr T) = Inr ()"
  then have "fit pinv rng self0 X0 y method lr T = (Inr (), snd (fit pinv rng self0 X0 y method lr T))"
    by (simp add: prod_eq_iff)
  from fit_params_set[OF this] show "fst (predict (snd (fit pinv rng self0 X0 y method lr T)) X) \<noteq> Inl NotFitted"
    by (simp add: predict_unset_iff)
qed

theorem predict_not_fitted_iff_witness:
  "fst (fit (\<lambda>A. Matrix 2 [[7/3, -1], [-1, 1/2]]) (\<lambda>i. 0) init (Arr1 [1, 2, 3]) [2, 4, 6] ''least_squares'' (1/100) 1000) = Inr ()
   \<and> fst (predict (snd (fit (\<lambda>A. Matrix 2 [[7/3, -1], [-1, 1/2]]) (\<lambda>i. 0) init (Arr1 [1, 2, 3]) [2, 4, 6] ''least_squares'' (1/100) 1000))
            (Arr1 [4])) \<noteq> Inl NotFitted"
proof -
  have h: "fst (fit (\<lambda>A. Matrix 2 [[7/3, -1], [-1, 1/2]]) (\<lambda>i. 0) init (Arr1 [1, 2, 3]) [2, 4, 6] ''least_squares'' (1/100) 1000) = Inr ()"
    by (simp add: fit_def fit_multiple_def mat_mul_def mat_vec_def transpose_m_def c_ones_def
          reshape_col_def nrows_def dot_def init_def Let_def)
  with predict_not_fitted_iff[of init "Arr1 [4]" "\<lambda>A. Matrix 2 [[7/3, -1], [-1, 1/2]]" "\<lambda>i. 0" init
      "Arr1 [1, 2, 3]" "[2, 4, 6]" "''least_squares''" "1/100" 1000]
  show ?thesis by simp
qed

subsection \<open>Metrics\<close>

text \<open>
  Claim C4. For \<open>y_true\<close> and \<open>y_pred\<close> of the same length, \<open>y_true\<close> not constant,
  \<open>evaluate_regression\<close> returns a dictionary with exactly the keys \<^verbatim>\<open>"R2"\<close>,
  \<^verbatim>\<open>"RMSE"\<close> and \<^verbatim>\<open>"MAE"\<close>; the total sum of squares is not zero, and the three
  values are \<open>1 - RSS / TSS\<close>, the square root of the mean squared difference and the
  mean absolute difference. Evaluating \<open>y_true\<close> against itself gives 1, 0 and 0.
\<close>

theorem evaluate_regression_metrics:
  assumes len: "length y_true = length y_pred"
    and nc: "\<exists>a b. a \<in> set y_true \<and> b \<in> set y_true \<and> a \<noteq> b"
  shows "(\<exists>d. evaluate_regression y_true y_pred = Inr d
      \<and> dom d = {''R2'', ''RMSE'', ''MAE''}
      \<and> (let n = length y_true;
              mean = (\<Sum>i<n. y_true ! i) / real n;
              RSS = (\<Sum>i<n. (y_true ! i - y_pred ! i)\<^sup>2);
              TSS = (\<Sum>i<n. (y_true ! i - mean)\<^sup>2)
          in TSS \<noteq> 0
           \<and> d ''R2'' = Some (Finite (1 - RSS / TSS))
           \<and> d ''RMSE'' = Some (Finite (sqrt (RSS / real n)))
           \<and> d ''MAE'' = Some (Finite ((\<Sum>i<n. \<bar>y_true ! i - y_pred ! i\<bar>) / real n))))
      \<and> evaluate_regression y_true y_true
          = Inr [''R2'' \<mapsto> Finite 1, ''RMSE'' \<mapsto> Finite 0, ''MAE'' \<mapsto> Finite 0]"
proof -
  from nc have ne: "y_true \<noteq> []" by auto
  with len have ne': "y_pred \<noteq> []" by auto
  from nc total_ss_eq_0[of y_true] have tss: "total_ss y_true \<noteq> 0" by blast
  have b: "broadcast2 (-) y_true y_pred = Inr (map2 (-) y_true y_pred)"
    using len by (simp add: broadcast2_def)
  have rss: "sum_list (map (\<lambda>v. v\<^sup>2) (map2 (-) y_true y_pred)) = (\<Sum>i<length y_true. (y_true ! i - y_pred ! i)\<^sup>2)"
    using len by (simp add: sum_list_sum_nth atLeast0LessThan)
  have mae: "sum_list (map abs (map2 (-) y_true y_pred)) = (\<Sum>i<length y_true. \<bar>y_true ! i - y_pred ! i\<bar>)"
    using len by (simp add: sum_list_sum_nth atLeast0LessThan)
  define d where "d = [''R2'' \<mapsto> Finite (1 - (\<Sum>i<length y_true. (y_true ! i - y_pred ! i)\<^sup>2) / total_ss y_true),
      ''RMSE'' \<mapsto> Finite (sqrt ((\<Sum>i<length y_true. (y_true ! i - y_pred ! i)\<^sup>2) / real (length y_true))),
      ''MAE'' \<mapsto> Finite ((\<Sum>i<length y_true. \<bar>y_true ! i - y_pred ! i\<bar>) / real (length y_true))]"
  have ev: "evaluate_regression y_true y_pred = Inr d"
    unfolding evaluate_regression_def b d_def
    using tss ne' len rss mae by (simp add: Let_def np_div_def)
  have dm: "dom d = {''R2'', ''RMSE'', ''MAE''}" unfolding d_def by auto
  have same: "evaluate_regression y_true y_true
          = Inr [''R2'' \<mapsto> Finite 1, ''RMSE'' \<mapsto> Finite 0, ''MAE'' \<mapsto> Finite 0]"
    using tss ne by (simp add: evaluate_regression_def broadcast2_def Let_def np_div_def
        zip_same_conv_map comp_def)
  have "evaluate_regression y_true y_pred = Inr d
      \<and> dom d = {''R2'', ''RMSE'', ''MAE''}
      \<and> (let n = length y_true;
              mean = (\<Sum>i<n. y_true ! i) / real n;
              RSS = (\<Sum>i<n. (y_true ! i - y_pred ! i)\<^sup>2);
              TSS = (\<Sum>i<n. (y_true ! i - mean)\<^sup>2)
          in TSS \<noteq> 0
           \<and> d ''R2'' = Some (Finite (1 - RSS / TSS))
           \<and> d ''RMSE'' = Some (Finite (sqrt (RSS / real n)))
           \<and> d ''MAE'' = Some (Finite ((\<Sum>i<n. \<bar>y_true ! i - y_pred ! i\<bar>) / real n)))"
    using ev dm tss total_ss_nonempty[OF ne] by (simp add: Let_def d_def)
  then show ?thesis using same by blast
qed

theorem evaluate_regression_metrics_witness:
  "(\<exists>d. evaluate_regression [1, 2, 3] [1, 2, 5] = Inr d
      \<and> dom d = {''R2'', ''RMSE'', ''MAE''}
      \<and> d ''R2'' = Some (Finite (- 1))
      \<and> d ''RMSE'' = Some (Finite (sqrt (4 / 3)))
      \<and> d ''MAE'' = Some (Finite (2 / 3)))
   \<and> evaluate_regression [1, 2, 3] [1, 2, 3]
          = Inr [''R2'' \<mapsto> Finite 1, ''RMSE'' \<mapsto> Finite 0, ''MAE'' \<mapsto> Finite 0]"
proof -
  have h: "\<exists>a b. a \<in> set [1, 2, 3 :: real] \<and> b \<in> set [1, 2, 3 :: real] \<and> a \<noteq> b"
    by (rule exI[of _ 1], rule exI[of _ 2]) simp
  from evaluate_regression_metrics[of "[1, 2, 3]" "[1, 2, 5]", OF _ h]
  show ?thesis
    by (simp add: Let_def lessThan_Suc numeral_3_eq_3 power2_eq_square)
qed

subsection \<open>Gradient descent\<close>

text \<open>
  Claim C1. Let \<open>X\<close> be a matrix of \<open>n > 0\<close> rows and \<open>p + 1\<close> columns (the first one
  being the bias column that \<open>fit\<close> adds) and \<open>y\<close> a target of length \<open>n\<close>. At every
  iteration \<open>t\<close> of the gradient descent the object holds an intercept \<open>b\<close> and \<open>p\<close>
  coefficients \<open>c\<close>; the predictions are those of \<open>b\<close> and \<open>c\<close> on the columns of \<open>X\<close>
  after the first, the error is predictions minus \<open>y\<close>, the gradient is
  \<open>(learning_rate / n) * X\<^sup>T * error\<close>, of length \<open>p + 1\<close>, and the iteration leaves
  the intercept \<open>b - gradient[0]\<close> and the coefficients \<open>c - gradient[1:]\<close>.
\<close>

theorem gd_iteration_update:
  fixes lr :: real
  assumes wf: "wf_matrix X" and X: "ncols X = Suc p" "nrows X = n" "0 < n" and y: "length y = n"
  shows "\<exists>b c. intercept (gd_state rng self X y lr t) = Some b
      \<and> coefficients (gd_state rng self X y lr t) = Some c \<and> length c = p
      \<and> (let predictions = map (\<lambda>i. (\<Sum>j<p. rows X ! i ! Suc j * c ! j) + b) [0..<n];
              error = map (\<lambda>i. predictions ! i - y ! i) [0..<n];
              gradient = map (\<lambda>j. lr / real n * (\<Sum>i<n. rows X ! i ! j * error ! i)) [0..<Suc p]
          in predict (gd_state rng self X y lr t) (Arr2 (drop_col0 X))
               = (Inr predictions, gd_state rng self X y lr t)
           \<and> gd_epoch X y lr t (gd_state rng self X y lr t) = (Inr (), gd_state rng self X y lr (Suc t))
           \<and> length gradient = p + 1
           \<and> intercept (gd_state rng self X y lr (Suc t)) = Some (b - gradient ! 0)
           \<and> coefficients (gd_state rng self X y lr (Suc t))
               = Some (map (\<lambda>j. c ! j - gradient ! Suc j) [0..<p]))"
proof -
  let ?s = "gd_state rng self X y lr t"
  have shp: "0 < nrows X" "length y = nrows X" using X y by simp_all
  from gd_state_ok[OF X(1) shp, of lr t rng self] have "gd_inv p ?s" by simp
  then obtain c b L H where s: "coefficients ?s = Some c" "length c = p" "intercept ?s = Some b"
    "loss_values ?s = Some L" "param_history ?s = Some H" by (rule gd_invE)
  define preds where "preds = map (\<lambda>r. dot (tl r) c + b) (rows X)"
  define err where "err = map2 (-) preds y"
  define grad where "grad = map (\<lambda>j. (lr / real n) * dot (map (\<lambda>r. r ! j) (rows X)) err) [0..<Suc p]"
  define predictions where "predictions = map (\<lambda>i. (\<Sum>j<p. rows X ! i ! Suc j * c ! j) + b) [0..<n]"
  define error where "error = map (\<lambda>i. predictions ! i - y ! i) [0..<n]"
  define gradient where "gradient = map (\<lambda>j. lr / real n * (\<Sum>i<n. rows X ! i ! j * error ! i)) [0..<Suc p]"
  have rl: "length (rows X ! i) = Suc p" if "i < n" for i
    using wf X that by (simp add: wf_matrix_def list_all_length nrows_def)
  have dt: "dot (tl (rows X ! i)) c = (\<Sum>j<p. rows X ! i ! Suc j * c ! j)" if "i < n" for i
    using rl[OF that] s(2) by (simp add: dot_sum nth_tl)
  have e1: "preds = predictions"
    unfolding preds_def predictions_def using X(2) dt
    by (subst map_rows_nth) (simp add: nrows_def)
  have lp: "length predictions = n" by (simp add: predictions_def)
  have e2: "err = error"
    unfolding err_def e1 error_def using lp y by (intro nth_equalityI) simp_all
  have le: "length error = n" by (simp add: error_def)
  have e3: "grad = gradient"
    unfolding grad_def gradient_def e2 using le X(2) by (simp add: dot_sum nrows_def)
  have lg: "length gradient = Suc p" by (simp add: gradient_def)
  have e4: "map2 (-) c (tl gradient) = map (\<lambda>j. c ! j - gradient ! Suc j) [0..<p]"
    using lg s(2) by (intro nth_equalityI) (simp_all add: nth_tl)
  have pr: "predict ?s (Arr2 (drop_col0 X)) = (Inr preds, ?s)"
    using predict_2d[of ?s c b "drop_col0 X"] s X by (simp add: drop_col0_def preds_def comp_def)
  have st: "gd_epoch X y lr t ?s = (Inr (), gd_state rng self X y lr (Suc t))"
    by (rule gd_state_step[OF X(1) shp])
  from gd_epoch_ok[OF X y s, of lr t] st
  have nxt: "gd_state rng self X y lr (Suc t) =
      ?s\<lparr>loss_values := Some (L @ [np_mean (map (\<lambda>v. v\<^sup>2) err)]),
         param_history := Some (H @ [b # c]),
         intercept := Some (b - grad ! 0),
         coefficients := Some (map2 (-) c (tl grad))\<rparr>"
    unfolding preds_def err_def grad_def by simp
  have i': "intercept (gd_state rng self X y lr (Suc t)) = Some (b - gradient ! 0)"
    unfolding nxt e3 by simp
  have c': "coefficients (gd_state rng self X y lr (Suc t)) = Some (map (\<lambda>j. c ! j - gradient ! Suc j) [0..<p])"
    unfolding nxt e3 e4[symmetric] by simp
  show ?thesis
    apply (rule exI[of _ b], rule exI[of _ c])
    unfolding Let_def predictions_def[symmetric] error_def[symmetric] gradient_def[symmetric]
    using s(1,2,3) pr[unfolded e1] st lg i' c' by simp
qed

theorem gd_iteration_update_witness:
  "wf_matrix (Matrix 2 [[1, 1], [1, 2 :: real]]) \<and> ncols (Matrix 2 [[1, 1], [1, 2 :: real]]) = Suc 1
   \<and> nrows (Matrix 2 [[1, 1], [1, 2 :: real]]) = 2 \<and> length [1, 2 :: real] = 2
   \<and> intercept (gd_state (\<lambda>i. 0) init (Matrix 2 [[1, 1], [1, 2]]) [1, 2] (1 / 10) 0) = Some 0
   \<and> coefficients (gd_state (\<lambda>i. 0) init (Matrix 2 [[1, 1], [1, 2]]) [1, 2] (1 / 10) 0) = Some [0]
   \<and> predict (gd_state (\<lambda>i. 0) init (Matrix 2 [[1, 1], [1, 2]]) [1, 2] (1 / 10) 0)
        (Arr2 (drop_col0 (Matrix 2 [[1, 1], [1, 2]])))
      = (Inr [0, 0], gd_state (\<lambda>i. 0) init (Matrix 2 [[1, 1], [1, 2]]) [1, 2] (1 / 10) 0)
   \<and> intercept (gd_state (\<lambda>i. 0) init (Matrix 2 [[1, 1], [1, 2]]) [1, 2] (1 / 10) 1) = Some (3 / 20)
   \<and> coefficients (gd_state (\<lambda>i. 0) init (Matrix 2 [[1, 1], [1, 2]]) [1, 2] (1 / 10) 1) = Some [1 / 4]"
proof -
  have h: "wf_matrix (Matrix 2 [[1, 1], [1, 2 :: real]])" "ncols (Matrix 2 [[1, 1], [1, 2 :: real]]) = Suc 1"
    "nrows (Matrix 2 [[1, 1], [1, 2 :: real]]) = 2" "0 < (2 :: nat)" "length [1, 2 :: real] = 2"
    by (simp_all add: wf_matrix_def nrows_def)
  have s0: "intercept (gd_state (\<lambda>i. 0) init (Matrix 2 [[1, 1], [1, 2]]) [1, 2] (1 / 10) 0) = Some 0"
    "coefficients (gd_state (\<lambda>i. 0) init (Matrix 2 [[1, 1], [1, 2]]) [1, 2] (1 / 10) 0) = Some [0]"
    by (simp_all add: gd_state_def gd_init_def Let_def)
  have u: "[0..<2] = [0, Suc 0]" "{..<2::nat} = {0, Suc 0}" by (auto simp add: upt_rec)
  from gd_iteration_update[OF h, of "\<lambda>i. 0" init "1 / 10" 0] s0 h
  show ?thesis
    by (auto simp add: Let_def u)
qed

text \<open>
  Claim C8. The loop has no exit but the end of its range. On a matrix with at least
  one row and one column and a target of matching length the fit returns; and
  whenever it returns, the object is the one reached after exactly \<open>T\<close> iterations
  (none for a negative \<open>T\<close>), the loss history and the parameter history have length
  \<open>T\<close>, and their entries at \<open>t\<close> are the mean squared error and the intercept
  followed by the coefficients of the object as iteration \<open>t\<close> found it, before its
  update.
\<close>

theorem fit_gradient_descent_history:
  "(ncols X = Suc p \<and> 0 < nrows X \<and> length y = nrows X
      \<longrightarrow> fst (fit_gradient_descent rng self X y lr T) = Inr ())
   \<and> (fit_gradient_descent rng self X y lr T = (Inr (), s')
      \<longrightarrow> s' = gd_state rng self X y lr (nat T)
        \<and> (\<exists>L H. loss_values s' = Some L \<and> param_history s' = Some H
              \<and> length L = nat T \<and> length H = nat T
              \<and> (\<forall>t<nat T. \<exists>b c preds err.
                    gd_epoch X y lr t (gd_state rng self X y lr t)
                      = (Inr (), gd_state rng self X y lr (Suc t))
                  \<and> intercept (gd_state rng self X y lr t) = Some b
                  \<and> coefficients (gd_state rng self X y lr t) = Some c
                  \<and> H ! t = b # c
                  \<and> predict (gd_state rng self X y lr t) (Arr2 (drop_col0 X))
                      = (Inr preds, gd_state rng self X y lr t)
                  \<and> broadcast2 (-) preds y = Inr err
                  \<and> L ! t = np_mean (map (\<lambda>v. v\<^sup>2) err))))"
proof (intro conjI impI)
  assume "ncols X = Suc p \<and> 0 < nrows X \<and> length y = nrows X"
  then have a: "ncols X = Suc p" "0 < nrows X" "length y = nrows X" by simp_all
  from gd_state_ok[OF a, of lr "nat T" rng self] a(1)
  show "fst (fit_gradient_descent rng self X y lr T) = Inr ()"
    by (simp add: fit_gradient_descent_def)
next
  assume ok: "fit_gradient_descent rng self X y lr T = (Inr (), s')"
  let ?i = "gd_init rng self X"
  let ?st = "gd_state rng self X y lr"
  from ok have run: "gd_loop X y lr 0 (nat T) ?i = (Inr (), s')"
    by (simp add: fit_gradient_descent_def split: if_splits)
  then show fin: "s' = ?st (nat T)" by (simp add: gd_state_def)
  have i0: "loss_values ?i = Some []" "param_history ?i = Some []"
    by (simp_all add: gd_init_def Let_def)
  from gd_loop_success_history[OF run i0] obtain L H where
    LH: "loss_values s' = Some L" "length L = nat T" "param_history s' = Some H" "length H = nat T"
    by auto
  have each: "\<exists>b c preds err.
        gd_epoch X y lr t (?st t) = (Inr (), ?st (Suc t))
      \<and> intercept (?st t) = Some b \<and> coefficients (?st t) = Some c \<and> H ! t = b # c
      \<and> predict (?st t) (Arr2 (drop_col0 X)) = (Inr preds, ?st t)
      \<and> broadcast2 (-) preds y = Inr err
      \<and> L ! t = np_mean (map (\<lambda>v. v\<^sup>2) err)" if t: "t < nat T" for t
  proof -
    define j where "j = nat T - Suc t"
    have j: "nat T = t + Suc j" using t by (simp add: j_def)
    obtain r1 s1 where pre: "gd_loop X y lr 0 t ?i = (r1, s1)" by (cases "gd_loop X y lr 0 t ?i")
    from run j have run': "gd_loop X y lr 0 (t + Suc j) ?i = (Inr (), s')" by simp
    have split: "gd_loop X y lr 0 (t + Suc j) ?i =
       (case r1 of Inl e \<Rightarrow> (Inl e, s1) | Inr u \<Rightarrow> gd_loop X y lr t (Suc j) s1)"
      unfolding gd_loop_add[of X y lr 0 t "Suc j" ?i] pre by (cases r1) simp_all
    from run' split obtain u1 where r1: "r1 = Inr u1" by (cases r1) auto
    from pre have s1: "s1 = ?st t" by (simp add: gd_state_def)
    from run' split r1 have post: "gd_loop X y lr t (Suc j) s1 = (Inr (), s')"
      by simp
    obtain r2 s2 where ep: "gd_epoch X y lr t s1 = (r2, s2)" by (cases "gd_epoch X y lr t s1")
    with post obtain u2 where r2: "r2 = Inr u2" by (cases r2) auto
    with ep post have rest: "gd_loop X y lr (Suc t) j s2 = (Inr (), s')" by simp
    have "gd_loop X y lr 0 (Suc t) ?i = (Inr (), s2)"
      unfolding gd_loop_Suc_right pre r1 using ep r2 by simp
    then have s2: "s2 = ?st (Suc t)" by (simp add: gd_state_def)
    from gd_loop_success_history[OF pre[unfolded r1] i0] obtain Lt Ht where
      pt: "loss_values s1 = Some Lt" "length Lt = t" "param_history s1 = Some Ht" "length Ht = t"
      by auto
    from gd_epoch_success[OF ep[unfolded r2]] pt obtain b c preds err where
      e: "intercept s1 = Some b" "coefficients s1 = Some c"
         "predict s1 (Arr2 (drop_col0 X)) = (Inr preds, s1)" "broadcast2 (-) preds y = Inr err"
         "loss_values s2 = Some (Lt @ [np_mean (map (\<lambda>v. v\<^sup>2) err)])"
         "param_history s2 = Some (Ht @ [b # c])" by auto
    from gd_loop_success_history[OF rest e(5,6)] LH obtain L' H' where
      "L = (Lt @ [np_mean (map (\<lambda>v. v\<^sup>2) err)]) @ L'" "H = (Ht @ [b # c]) @ H'" by auto
    with pt have "L ! t = np_mean (map (\<lambda>v. v\<^sup>2) err)" "H ! t = b # c"
      by (simp_all add: nth_append)
    with e ep r2 show ?thesis unfolding s1[symmetric] s2[symmetric] by auto
  qed
  from LH each
  show "\<exists>L H. loss_values s' = Some L \<and> param_history s' = Some H
              \<and> length L = nat T \<and> length H = nat T
              \<and> (\<forall>t<nat T. \<exists>b c preds err.
                    gd_epoch X y lr t (?st t) = (Inr (), ?st (Suc t))
                  \<and> intercept (?st t) = Some b
                  \<and> coefficients (?st t) = Some c
                  \<and> H ! t = b # c
                  \<and> predict (?st t) (Arr2 (drop_col0 X)) = (Inr preds, ?st t)
                  \<and> broadcast2 (-) preds y = Inr err
                  \<and> L ! t = np_mean (map (\<lambda>v. v\<^sup>2) err))"
    by blast
qed

theorem fit_gradient_descent_history_witness:
  "ncols (Matrix 2 [[1, 1], [1, 2 :: real]]) = Suc 1
   \<and> 0 < nrows (Matrix 2 [[1, 1], [1, 2 :: real]])
   \<and> length [1, 2 :: real] = nrows (Matrix 2 [[1, 1], [1, 2 :: real]])
   \<and> fst (fit_gradient_descent (\<lambda>i. 0) init (Matrix 2 [[1, 1], [1, 2]]) [1, 2] (1 / 10) 2) = Inr ()
   \<and> (\<exists>L H. loss_values (snd (fit_gradient_descent (\<lambda>i. 0) init (Matrix 2 [[1, 1], [1, 2]]) [1, 2] (1 / 10) 2)) = Some L
          \<and> param_history (snd (fit_gradient_descent (\<lambda>i. 0) init (Matrix 2 [[1, 1], [1, 2]]) [1, 2] (1 / 10) 2)) = Some H
          \<and> length L = 2 \<and> length H = 2 \<and> H ! 0 = [0, 0] \<and> L ! 0 = Finite (5 / 2))"
proof -
  let ?X = "Matrix 2 [[1, 1], [1, 2 :: real]]"
  let ?f = "fit_gradient_descent (\<lambda>i. 0) init ?X [1, 2] (1 / 10) 2"
  have h: "ncols ?X = Suc 1 \<and> 0 < nrows ?X \<and> length [1, 2 :: real] = nrows ?X"
    by (simp add: nrows_def)
  note inst = fit_gradient_descent_history[of ?X 1 "[1, 2]" "\<lambda>i. 0" init "1 / 10" 2 "snd ?f"]
  from inst h have ok: "fst ?f = Inr ()" by blast
  then have "?f = (Inr (), snd ?f)" by (simp add: prod_eq_iff)
  with inst obtain L H where LH: "loss_values (snd ?f) = Some L" "param_history (snd ?f) = Some H"
    "length L = nat 2" "length H = nat 2"
    and each: "\<forall>t<nat 2. \<exists>b c preds err.
        gd_epoch ?X [1, 2] (1 / 10) t (gd_state (\<lambda>i. 0) init ?X [1, 2] (1 / 10) t)
          = (Inr (), gd_state (\<lambda>i. 0) init ?X [1, 2] (1 / 10) (Suc t))
      \<and> intercept (gd_state (\<lambda>i. 0) init ?X [1, 2] (1 / 10) t) = Some b
      \<and> coefficients (gd_state (\<lambda>i. 0) init ?X [1, 2] (1 / 10) t) = Some c
      \<and> H ! t = b # c
      \<and> predict (gd_state (\<lambda>i. 0) init ?X [1, 2] (1 / 10) t) (Arr2 (drop_col0 ?X))
          = (Inr preds, gd_state (\<lambda>i. 0) init ?X [1, 2] (1 / 10) t)
      \<and> broadcast2 (-) preds [1, 2] = Inr err
      \<and> L ! t = np_mean (map (\<lambda>v. v\<^sup>2) err)"
    by blast
  from each have "\<exists>b c preds err.
        intercept (gd_state (\<lambda>i. 0) init ?X [1, 2] (1 / 10) 0) = Some b
      \<and> coefficients (gd_state (\<lambda>i. 0) init ?X [1, 2] (1 / 10) 0) = Some c
      \<and> H ! 0 = b # c
      \<and> predict (gd_state (\<lambda>i. 0) init ?X [1, 2] (1 / 10) 0) (Arr2 (drop_col0 ?X))
          = (Inr preds, gd_state (\<lambda>i. 0) init ?X [1, 2] (1 / 10) 0)
      \<and> broadcast2 (-) preds [1, 2] = Inr err
      \<and> L ! 0 = np_mean (map (\<lambda>v. v\<^sup>2) err)"
    by force
  then have z: "H ! 0 = [0, 0] \<and> L ! 0 = Finite (5 / 2)"
    by (auto simp add: gd_state_def gd_init_def Let_def predict_def mat_vec_def drop_col0_def
          dot_def broadcast2_def np_mean_def init_def)
  from h ok LH z show ?thesis by simp
qed

subsection \<open>Least squares\<close>

text \<open>
  Claim C3. With method \<^verbatim>\<open>"least_squares"\<close>, \<open>fit\<close> works on the input with a column
  of ones in front (a flat input first made a single column). Where the
  pseudo-inverse \<open>P\<close> of \<open>X\<^sup>T X\<close> is a square matrix of the size of \<open>X\<^sup>T X\<close> and \<open>y\<close> has
  one entry per row, \<open>fit\<close> returns, with the intercept \<open>w[0]\<close> and the coefficients
  \<open>w[1:]\<close> of \<open>w = P X\<^sup>T y\<close>, one coefficient per feature. For \<open>X = [[1],[2],[3]]\<close>,
  \<open>y = [2,4,6]\<close> and a \<open>pinv\<close> that returns the Moore-Penrose pseudo-inverse, the
  intercept is 0, the coefficients are \<open>[2]\<close> and the prediction for \<open>[4]\<close> is \<open>[8]\<close>
  (exactly, in real arithmetic).
\<close>

theorem fit_least_squares:
  fixes pinv :: "real matrix \<Rightarrow> real matrix"
  shows "with_bias (Arr1 xs) = Matrix 2 (map (\<lambda>x. [1, x]) xs)
   \<and> with_bias (Arr2 M) = Matrix (Suc (ncols M)) (map (\<lambda>r. 1 # r) (rows M))
   \<and> (let Xb = with_bias X; k = ncols Xb; n = nrows Xb;
          A = Matrix k (map (\<lambda>i. map (\<lambda>j. \<Sum>r<n. rows Xb ! r ! i * rows Xb ! r ! j) [0..<k]) [0..<k]);
          P = pinv A;
          w = map (\<lambda>a. \<Sum>j<n. (\<Sum>l<k. rows P ! a ! l * rows Xb ! j ! l) * y ! j) [0..<k]
       in wf_matrix P \<and> nrows P = k \<and> ncols P = k \<and> length y = n
          \<longrightarrow> fit pinv rng self X y ''least_squares'' lr T
                = (Inr (), self\<lparr>intercept := Some (w ! 0), coefficients := Some (tl w)\<rparr>)
              \<and> length (tl w) = n_features X)
   \<and> (penrose (Matrix 2 [[3, 6], [6, 14]]) (pinv (Matrix 2 [[3, 6], [6, 14]]))
        \<longrightarrow> fit pinv rng self (Arr2 (Matrix 1 [[1], [2], [3]])) [2, 4, 6] ''least_squares'' lr T
              = (Inr (), self\<lparr>intercept := Some 0, coefficients := Some [2]\<rparr>)
            \<and> predict (self\<lparr>intercept := Some 0, coefficients := Some [2]\<rparr>) (Arr1 [4])
              = (Inr [8], self\<lparr>intercept := Some 0, coefficients := Some [2]\<rparr>))"
proof (intro conjI)
  show "with_bias (Arr1 xs) = Matrix 2 (map (\<lambda>x. [1, x]) xs)"
    by (simp add: with_bias_def c_ones_def reshape_col_def comp_def)
  show "with_bias (Arr2 M) = Matrix (Suc (ncols M)) (map (\<lambda>r. 1 # r) (rows M))"
    by (simp add: with_bias_def c_ones_def)
  have general: "fit pinv rng self X y ''least_squares'' lr T
                = (Inr (), self\<lparr>intercept := Some (w ! 0), coefficients := Some (tl w)\<rparr>)
              \<and> length (tl w) = n_features X"
    if A: "A = Matrix (ncols Xb) (map (\<lambda>i. map (\<lambda>j. \<Sum>r<nrows Xb. rows Xb ! r ! i * rows Xb ! r ! j)
              [0..<ncols Xb]) [0..<ncols Xb])"
      and w: "w = map (\<lambda>a. \<Sum>j<nrows Xb. (\<Sum>l<ncols Xb. rows (pinv A) ! a ! l * rows Xb ! j ! l) * y ! j)
              [0..<ncols Xb]"
      and Xb: "Xb = with_bias X"
      and h: "wf_matrix (pinv A)" "nrows (pinv A) = ncols Xb" "ncols (pinv A) = ncols Xb"
             "length y = nrows Xb"
    for Xb A w X y
  proof -
    have A': "mm (transpose_m Xb) Xb = A" unfolding A by (rule gram_entries)
    have k: "ncols Xb = Suc (n_features X)" unfolding Xb by (rule with_bias_shape)
    have PX: "mm (pinv A) (transpose_m Xb) =
       Matrix (nrows Xb)
         (map (\<lambda>a. map (\<lambda>j. \<Sum>l<ncols Xb. rows (pinv A) ! a ! l * rows Xb ! j ! l) [0..<nrows Xb])
            [0..<ncols Xb])"
      using pinv_Xt_entries[OF h(1,3)] h(2) by simp
    have "mv (mm (pinv A) (transpose_m Xb)) y = w"
      unfolding PX w using h(4)
      by (subst mv_entries) (simp_all add: list_all_iff nrows_def)
    with fit_multiple_ok[of pinv Xb y self] A' h k
    have "fit_multiple pinv self Xb y
        = (Inr (), self\<lparr>intercept := Some (w ! 0), coefficients := Some (tl w)\<rparr>)"
      by simp
    moreover have "length (tl w) = n_features X" unfolding w using k by simp
    ultimately show ?thesis by (simp add: fit_ls_dispatch Xb)
  qed
  then show "let Xb = with_bias X; k = ncols Xb; n = nrows Xb;
          A = Matrix k (map (\<lambda>i. map (\<lambda>j. \<Sum>r<n. rows Xb ! r ! i * rows Xb ! r ! j) [0..<k]) [0..<k]);
          P = pinv A;
          w = map (\<lambda>a. \<Sum>j<n. (\<Sum>l<k. rows P ! a ! l * rows Xb ! j ! l) * y ! j) [0..<k]
       in wf_matrix P \<and> nrows P = k \<and> ncols P = k \<and> length y = n
          \<longrightarrow> fit pinv rng self X y ''least_squares'' lr T
                = (Inr (), self\<lparr>intercept := Some (w ! 0), coefficients := Some (tl w)\<rparr>)
              \<and> length (tl w) = n_features X"
    unfolding Let_def by blast
  show "penrose (Matrix 2 [[3, 6], [6, 14]]) (pinv (Matrix 2 [[3, 6], [6, 14]]))
        \<longrightarrow> fit pinv rng self (Arr2 (Matrix 1 [[1], [2], [3]])) [2, 4, 6] ''least_squares'' lr T
              = (Inr (), self\<lparr>intercept := Some 0, coefficients := Some [2]\<rparr>)
            \<and> predict (self\<lparr>intercept := Some 0, coefficients := Some [2]\<rparr>) (Arr1 [4])
              = (Inr [8], self\<lparr>intercept := Some 0, coefficients := Some [2]\<rparr>)"
  proof
    assume "penrose (Matrix 2 [[3, 6], [6, 14]]) (pinv (Matrix 2 [[3, 6], [6, 14]]))"
    then have P: "pinv (Matrix 2 [[3, 6], [6, 14]]) = Matrix 2 [[7 / 3, - 1], [- 1, 1 / 2]]"
      by (rule penrose_example)
    have Xb: "with_bias (Arr2 (Matrix 1 [[1], [2], [3]])) = Matrix 2 [[1, 1], [1, 2], [1, 3]]"
      by (simp add: with_bias_def c_ones_def)
    have G: "mm (transpose_m (Matrix 2 [[1, 1], [1, 2], [1, 3]])) (Matrix 2 [[1, 1], [1, 2], [1, 3]])
        = Matrix 2 [[3, 6], [6, 14]]"
      by (simp add: mm_def transpose_m_def dot_def nrows_def upt_rec numeral_2_eq_2)
    have W: "mv (mm (Matrix 2 [[7 / 3, - 1], [- 1, 1 / 2]]) (transpose_m (Matrix 2 [[1, 1], [1, 2], [1, 3]])))
          [2, 4, 6] = [0, 2]"
      by (simp add: mv_def mm_def transpose_m_def dot_def nrows_def upt_rec numeral_2_eq_2 numeral_3_eq_3)
    have "fit_multiple pinv self (Matrix 2 [[1, 1], [1, 2], [1, 3]]) [2, 4, 6]
        = (Inr (), self\<lparr>intercept := Some 0, coefficients := Some [2]\<rparr>)"
      using fit_multiple_ok[of pinv "Matrix 2 [[1, 1], [1, 2], [1, 3]]" "[2, 4, 6]" self]
      unfolding G P W by (simp add: nrows_def)
    moreover have "predict (self\<lparr>intercept := Some 0, coefficients := Some [2]\<rparr>) (Arr1 [4])
              = (Inr [8], self\<lparr>intercept := Some 0, coefficients := Some [2]\<rparr>)"
      by (simp add: predict_def broadcast2_def)
    ultimately show "fit pinv rng self (Arr2 (Matrix 1 [[1], [2], [3]])) [2, 4, 6] ''least_squares'' lr T
              = (Inr (), self\<lparr>intercept := Some 0, coefficients := Some [2]\<rparr>)
            \<and> predict (self\<lparr>intercept := Some 0, coefficients := Some [2]\<rparr>) (Arr1 [4])
              = (Inr [8], self\<lparr>intercept := Some 0, coefficients := Some [2]\<rparr>)"
      unfolding fit_ls_dispatch Xb by simp
  qed
qed

theorem fit_least_squares_witness:
  "wf_matrix (Matrix 2 [[7 / 3, - 1], [- 1, 1 / 2 :: real]])
   \<and> nrows (Matrix 2 [[7 / 3, - 1], [- 1, 1 / 2 :: real]]) = 2
   \<and> length [2, 4, 6 :: real] = nrows (with_bias (Arr2 (Matrix 1 [[1], [2], [3]])))
   \<and> penrose (Matrix 2 [[3, 6], [6, 14]]) (Matrix 2 [[7 / 3, - 1], [- 1, 1 / 2]])
   \<and> fit (\<lambda>A. Matrix 2 [[7 / 3, - 1], [- 1, 1 / 2]]) (\<lambda>i. 0) init
        (Arr2 (Matrix 1 [[1], [2], [3]])) [2, 4, 6] ''least_squares'' (1 / 100) 1000
      = (Inr (), init\<lparr>intercept := Some 0, coefficients := Some [2]\<rparr>)
   \<and> predict (init\<lparr>intercept := Some 0, coefficients := Some [2]\<rparr>) (Arr1 [4])
      = (Inr [8], init\<lparr>intercept := Some 0, coefficients := Some [2]\<rparr>)"
proof -
  have p: "penrose (Matrix 2 [[3, 6], [6, 14]]) (Matrix 2 [[7 / 3, - 1], [- 1, 1 / 2]])"
    by (simp add: penrose_def wf_matrix_def nrows_def mm_def transpose_m_def dot_def upt_rec
          numeral_2_eq_2)
  have s: "wf_matrix (Matrix 2 [[7 / 3, - 1], [- 1, 1 / 2 :: real]])"
    "nrows (Matrix 2 [[7 / 3, - 1], [- 1, 1 / 2 :: real]]) = 2"
    "length [2, 4, 6 :: real] = nrows (with_bias (Arr2 (Matrix 1 [[1], [2], [3]])))"
    by (simp_all add: wf_matrix_def nrows_def with_bias_def c_ones_def)
  from fit_least_squares[of "[]" "Matrix 0 []" "Arr2 (Matrix 1 [[1], [2], [3]])"
      "\<lambda>A. Matrix 2 [[7 / 3, - 1], [- 1, 1 / 2]]" "[2, 4, 6]" "\<lambda>i. 0" init "1 / 100" 1000] p s
  show ?thesis by simp
qed

subsection \<open>The parameters of the object\<close>

text \<open>
  Claim C10. A new object has neither parameter. \<open>predict\<close> does not change the
  object, and \<open>fit\<close>, \<open>fit_multiple\<close> and \<open>fit_gradient_descent\<close>, whether they return or
  raise, leave the two parameters unset together or set together. A \<open>fit\<close> that
  returns has set both, with one coefficient per feature column of its \<open>X\<close> (for
  least squares, given that \<^verbatim>\<open>pinv\<close> returns as many rows as \<open>X\<^sup>T X\<close> has), and the
  parameters it leaves do not depend on what the object held before.
\<close>

theorem params_invariant:
  "params_inv init \<and> coefficients init = None \<and> intercept init = None
   \<and> snd (predict self X') = self
   \<and> (params_inv self \<longrightarrow> params_inv (snd (fit pinv rng self X y method lr T)))
   \<and> (params_inv self \<longrightarrow> params_inv (snd (fit_multiple pinv self Xb y)))
   \<and> (params_inv self \<longrightarrow> params_inv (snd (fit_gradient_descent rng self Xb y lr T)))
   \<and> (fit pinv rng self X y method lr T = (Inr (), s')
        \<and> (method = ''least_squares''
              \<longrightarrow> nrows (pinv (mm (transpose_m (with_bias X)) (with_bias X))) = ncols (with_bias X))
       \<longrightarrow> (\<exists>c b. coefficients s' = Some c \<and> intercept s' = Some b \<and> length c = n_features X)
         \<and> (\<exists>s2'. fit pinv rng self2 X y method lr T = (Inr (), s2')
                \<and> coefficients s2' = coefficients s' \<and> intercept s2' = intercept s'))"
proof (intro conjI impI)
  show "params_inv init" "coefficients init = None" "intercept init = None"
    by (simp_all add: params_inv_def init_def)
  show "snd (predict self X') = self" by (rule predict_state)
  show "params_inv (snd (fit_multiple pinv self Xb y))" if "params_inv self"
    using that by (rule fit_multiple_params_inv)
  show "params_inv (snd (fit_gradient_descent rng self Xb y lr T))" if "params_inv self"
    using that by (rule fit_gradient_descent_params_inv)
  show "params_inv (snd (fit pinv rng self X y method lr T))" if "params_inv self"
    using that
    by (cases rule: fit_cases[of "method" pinv rng self X y lr T])
       (simp_all add: fit_multiple_params_inv fit_gradient_descent_params_inv)
next
  assume a: "fit pinv rng self X y method lr T = (Inr (), s')
        \<and> (method = ''least_squares''
              \<longrightarrow> nrows (pinv (mm (transpose_m (with_bias X)) (with_bias X))) = ncols (with_bias X))"
  show "\<exists>c b. coefficients s' = Some c \<and> intercept s' = Some b \<and> length c = n_features X"
  proof (cases rule: fit_cases[of "method" pinv rng self X y lr T])
    case invalid
    with a show ?thesis by simp
  next
    case ls
    with a fit_multiple_outcome[of pinv self "with_bias X" y "Inr ()" s'] show ?thesis
      by (auto simp add: with_bias_shape)
  next
    case gd
    with a fit_gradient_descent_outcome[of rng self "with_bias X" y lr T "Inr ()" s'] show ?thesis
      by (auto simp add: with_bias_shape)
  qed
  show "\<exists>s2'. fit pinv rng self2 X y method lr T = (Inr (), s2')
                \<and> coefficients s2' = coefficients s' \<and> intercept s2' = intercept s'"
  proof (cases rule: fit_cases[of "method" pinv rng self X y lr T])
    case invalid
    with a show ?thesis by simp
  next
    case ls
    with a have "fit_multiple pinv self (with_bias X) y = (Inr (), s')" by simp
    from fit_multiple_overwrites[OF this, of self2] ls(1) show ?thesis
      by (auto simp add: fit_ls_dispatch)
  next
    case gd
    with a have "fit_gradient_descent rng self (with_bias X) y lr T = (Inr (), s')" by simp
    then have "fit_gradient_descent rng self2 (with_bias X) y lr T = (Inr (), s')"
      by (simp add: fit_gradient_descent_def gd_init_overwrites[of rng self "with_bias X" self2]
            split: if_splits)
    with gd(1) show ?thesis by (simp add: fit_def with_bias_def Let_def)
  qed
qed

theorem params_invariant_witness:
  "params_inv init
   \<and> fit (\<lambda>A. Matrix 2 [[7 / 3, - 1], [- 1, 1 / 2]]) (\<lambda>i. 0) init
        (Arr2 (Matrix 1 [[1], [2], [3]])) [2, 4, 6] ''least_squares'' (1 / 100) 1000
      = (Inr (), init\<lparr>intercept := Some 0, coefficients := Some [2]\<rparr>)
   \<and> nrows (Matrix 2 [[7 / 3, - 1], [- 1, 1 / 2 :: real]]) = ncols (with_bias (Arr2 (Matrix 1 [[1], [2], [3]])))
   \<and> params_inv (init\<lparr>intercept := Some 0, coefficients := Some [2]\<rparr>)
   \<and> n_features (Arr2 (Matrix 1 [[1], [2], [3]])) = length [2 :: real]
   \<and> (\<exists>s2'. fit (\<lambda>A. Matrix 2 [[7 / 3, - 1], [- 1, 1 / 2]]) (\<lambda>i. 0)
               (init\<lparr>intercept := Some 5, coefficients := Some [1, 2, 3]\<rparr>)
               (Arr2 (Matrix 1 [[1], [2], [3]])) [2, 4, 6] ''least_squares'' (1 / 100) 1000 = (Inr (), s2')
          \<and> coefficients s2' = Some [2] \<and> intercept s2' = Some 0)"
proof -
  have f: "fit (\<lambda>A. Matrix 2 [[7 / 3, - 1], [- 1, 1 / 2]]) (\<lambda>i. 0) init
        (Arr2 (Matrix 1 [[1], [2], [3]])) [2, 4, 6] ''least_squares'' (1 / 100) 1000
      = (Inr (), init\<lparr>intercept := Some 0, coefficients := Some [2]\<rparr>)"
    by (simp add: fit_def fit_multiple_def mat_mul_def mat_vec_def transpose_m_def c_ones_def
          nrows_def dot_def Let_def upt_rec numeral_2_eq_2)
  have n: "nrows (Matrix 2 [[7 / 3, - 1], [- 1, 1 / 2 :: real]]) = ncols (with_bias (Arr2 (Matrix 1 [[1], [2], [3]])))"
    by (simp add: nrows_def with_bias_def c_ones_def)
  from params_invariant[of init "Arr1 []" "\<lambda>A. Matrix 2 [[7 / 3, - 1], [- 1, 1 / 2]]" "\<lambda>i. 0"
      "Arr2 (Matrix 1 [[1], [2], [3]])" "[2, 4, 6]" "''least_squares''" "1 / 100" 1000 "Matrix 0 []"
      "init\<lparr>intercept := Some 0, coefficients := Some [2]\<rparr>"
      "init\<lparr>intercept := Some 5, coefficients := Some [1, 2, 3]\<rparr>"] f n
  show ?thesis by (simp add: n_features_def)
qed

subsection \<open>One-hot encoding\<close>

text \<open>
  Claim C2 says that \<open>one_hot_encode\<close> of \<open>[["a"],["b"],["a"]]\<close> with index 0 and no
  \<open>drop_first\<close> is \<open>[[1,0],[0,1],[1,0]]\<close>. On that input as \<^verbatim>\<open>np.array\<close> builds it, an
  array of a fixed-width text dtype, the result holds the texts \<open>'1'\<close> and \<open>'0'\<close>, not
  the numbers: the indicators are written into an array of the dtype of \<open>X\<close>.
\<close>

theorem one_hot_encode_text_counterexample:
  "one_hot_encode (CellArray TextDT (Matrix 1 [[Text ''a''], [Text ''b''], [Text ''a'']])) [0] False
     = Inr (CellArray TextDT
              (Matrix 2 [[Text ''1'', Text ''0''], [Text ''0'', Text ''1''], [Text ''1'', Text ''0'']]))
   \<and> Matrix 2 [[Text ''1'', Text ''0''], [Text ''0'', Text ''1''], [Text ''1'', Text ''0'']]
     \<noteq> Matrix 2 [[Num 1, Num 0], [Num 0, Num 1], [Num 1, Num 0]]"
  by (simp add: one_hot_encode_def ohe_step_def norm_index_def insert_index_def np_unique_def
        one_hot_rows_def Let_def store_int_def str_int_bits)

text \<open>
  Claim C2, amended. Let \<open>X\<close> be a rectangular array with at least one row and \<open>idxs\<close>
  distinct column positions \<open>0 \<le> i < ncols\<close> of \<open>X\<close>, each of these columns holding only
  numbers or only texts. Then \<open>one_hot_encode\<close> runs its loop over the indices in
  descending order and returns the array, of the dtype of \<open>X\<close>, in which every
  selected cell is replaced, in place, by its indicator (without its first cell when
  \<open>drop_first\<close>): the categories of a column are its distinct values in increasing
  order, and the indicator of a cell has one cell per category, the one of the dtype
  at the rank of the cell's value and its zero elsewhere. The one and the zero are
  the numbers 1 and 0 in an object or numeric array and the texts \<open>'1'\<close> and \<open>'0'\<close> in a
  text array. On \<open>[["a"],["b"],["a"]]\<close> with index 0 and no \<open>drop_first\<close> the result is
  \<open>[[1,0],[0,1],[1,0]]\<close> for an object array and \<open>[['1','0'],['0','1'],['1','0']]\<close> for
  a text array.
\<close>

theorem one_hot_encode_in_dtype:
  fixes drop_first :: bool
  shows "(wf_matrix (cells X) \<and> rows (cells X) \<noteq> [] \<and> distinct idxs
      \<and> (\<forall>i\<in>set idxs. 0 \<le> i \<and> i < int (ncols (cells X))
            \<and> homogeneous (column (cells X) (nat i)))
     \<longrightarrow> one_hot_encode X idxs drop_first = ohe_loop X drop_first (rev (sort idxs)) X
       \<and> sorted_wrt (\<lambda>a b. b < a) (rev (sort idxs))
       \<and> one_hot_encode X idxs drop_first = Inr (spliced X (nat ` set idxs) drop_first)
       \<and> dtype (spliced X (nat ` set idxs) drop_first) = dtype X
       \<and> (\<forall>i\<in>set idxs.
            set (categories (cells X) (nat i)) = set (column (cells X) (nat i))
          \<and> sorted_wrt cell_less (categories (cells X) (nat i))
          \<and> (\<forall>r\<in>set (rows (cells X)).
                rank_of (categories (cells X) (nat i)) (r ! nat i) < length (categories (cells X) (nat i))
              \<and> categories (cells X) (nat i) ! rank_of (categories (cells X) (nat i)) (r ! nat i)
                  = r ! nat i
              \<and> length (indicator (dtype X) (categories (cells X) (nat i)) (r ! nat i))
                  = length (categories (cells X) (nat i))
              \<and> (\<forall>k<length (categories (cells X) (nat i)).
                    indicator (dtype X) (categories (cells X) (nat i)) (r ! nat i) ! k
                      = (if k = rank_of (categories (cells X) (nat i)) (r ! nat i)
                         then store_int (dtype X) 1 else store_int (dtype X) 0)))))
   \<and> store_int ObjectDT 1 = Num 1 \<and> store_int ObjectDT 0 = Num 0
   \<and> store_int NumberDT 1 = Num 1 \<and> store_int NumberDT 0 = Num 0
   \<and> store_int TextDT 1 = Text ''1'' \<and> store_int TextDT 0 = Text ''0''
   \<and> one_hot_encode (CellArray ObjectDT (Matrix 1 [[Text ''a''], [Text ''b''], [Text ''a'']])) [0] False
        = Inr (CellArray ObjectDT (Matrix 2 [[Num 1, Num 0], [Num 0, Num 1], [Num 1, Num 0]]))
   \<and> one_hot_encode (CellArray TextDT (Matrix 1 [[Text ''a''], [Text ''b''], [Text ''a'']])) [0] False
        = Inr (CellArray TextDT
                 (Matrix 2 [[Text ''1'', Text ''0''], [Text ''0'', Text ''1''], [Text ''1'', Text ''0'']]))"
proof (intro conjI impI)
  show "one_hot_encode (CellArray ObjectDT (Matrix 1 [[Text ''a''], [Text ''b''], [Text ''a'']])) [0] False
        = Inr (CellArray ObjectDT (Matrix 2 [[Num 1, Num 0], [Num 0, Num 1], [Num 1, Num 0]]))"
    by (simp add: one_hot_encode_def ohe_step_def norm_index_def insert_index_def np_unique_def
          one_hot_rows_def Let_def store_int_def)
  show "one_hot_encode (CellArray TextDT (Matrix 1 [[Text ''a''], [Text ''b''], [Text ''a'']])) [0] False
        = Inr (CellArray TextDT
                 (Matrix 2 [[Text ''1'', Text ''0''], [Text ''0'', Text ''1''], [Text ''1'', Text ''0'']]))"
    by (simp add: one_hot_encode_def ohe_step_def norm_index_def insert_index_def np_unique_def
          one_hot_rows_def Let_def store_int_def str_int_bits)
  show "store_int ObjectDT 1 = Num 1" "store_int ObjectDT 0 = Num 0"
    "store_int NumberDT 1 = Num 1" "store_int NumberDT 0 = Num 0"
    "store_int TextDT 1 = Text ''1''" "store_int TextDT 0 = Text ''0''"
    by (simp_all add: store_int_bits)
next
  assume a: "wf_matrix (cells X) \<and> rows (cells X) \<noteq> [] \<and> distinct idxs
      \<and> (\<forall>i\<in>set idxs. 0 \<le> i \<and> i < int (ncols (cells X))
            \<and> homogeneous (column (cells X) (nat i)))"
  then have wf: "wf_matrix (cells X)" and ne: "rows (cells X) \<noteq> []" and d: "distinct idxs"
    and ok: "\<forall>i\<in>set idxs. 0 \<le> i \<and> i < int (ncols (cells X))
            \<and> homogeneous (column (cells X) (nat i))"
    by simp_all
  show "one_hot_encode X idxs drop_first = ohe_loop X drop_first (rev (sort idxs)) X"
    by (simp add: one_hot_encode_def)
  have "sorted_wrt (<) (sort idxs)" using d by (simp add: strict_sorted_iff)
  then show "sorted_wrt (\<lambda>a b. b < a) (rev (sort idxs))" by (simp add: sorted_wrt_rev)
  show "one_hot_encode X idxs drop_first = Inr (spliced X (nat ` set idxs) drop_first)"
    by (rule one_hot_encode_spliced[OF wf ne d ok])
  show "dtype (spliced X (nat ` set idxs) drop_first) = dtype X"
    by (simp add: spliced_def)
  show "\<forall>i\<in>set idxs.
            set (categories (cells X) (nat i)) = set (column (cells X) (nat i))
          \<and> sorted_wrt cell_less (categories (cells X) (nat i))
          \<and> (\<forall>r\<in>set (rows (cells X)).
                rank_of (categories (cells X) (nat i)) (r ! nat i) < length (categories (cells X) (nat i))
              \<and> categories (cells X) (nat i) ! rank_of (categories (cells X) (nat i)) (r ! nat i)
                  = r ! nat i
              \<and> length (indicator (dtype X) (categories (cells X) (nat i)) (r ! nat i))
                  = length (categories (cells X) (nat i))
              \<and> (\<forall>k<length (categories (cells X) (nat i)).
                    indicator (dtype X) (categories (cells X) (nat i)) (r ! nat i) ! k
                      = (if k = rank_of (categories (cells X) (nat i)) (r ! nat i)
                         then store_int (dtype X) 1 else store_int (dtype X) 0)))"
  proof (intro ballI conjI allI impI)
    fix i assume i: "i \<in> set idxs"
    with ok have hom: "homogeneous (column (cells X) (nat i))" by simp
    let ?u = "categories (cells X) (nat i)"
    show "set ?u = set (column (cells X) (nat i))"
      by (rule categories_homogeneous(2)[OF hom])
    show "sorted_wrt cell_less ?u"
      by (rule categories_homogeneous(3)[OF hom])
    fix r assume r: "r \<in> set (rows (cells X))"
    then have m: "r ! nat i \<in> set ?u"
      unfolding categories_homogeneous(2)[OF hom] by (simp add: column_def)
    show "rank_of ?u (r ! nat i) < length ?u"
      by (rule rank_of_less[OF m])
    show "?u ! rank_of ?u (r ! nat i) = r ! nat i"
      by (rule rank_of_nth[OF m])
    show "length (indicator (dtype X) ?u (r ! nat i)) = length ?u"
      by (rule indicator_length)
    fix k assume "k < length ?u"
    then show "indicator (dtype X) ?u (r ! nat i) ! k
        = (if k = rank_of ?u (r ! nat i) then store_int (dtype X) 1 else store_int (dtype X) 0)"
      by (rule indicator_nth)
  qed
qed

theorem one_hot_encode_in_dtype_witness:
  "wf_matrix (Matrix 2 [[Text ''a'', Text ''x''], [Text ''b'', Text ''y''], [Text ''a'', Text ''z'']])
   \<and> distinct [0 :: int]
   \<and> homogeneous (column (Matrix 2 [[Text ''a'', Text ''x''], [Text ''b'', Text ''y''], [Text ''a'', Text ''z'']]) 0)
   \<and> categories (Matrix 2 [[Text ''a'', Text ''x''], [Text ''b'', Text ''y''], [Text ''a'', Text ''z'']]) 0
        = [Text ''a'', Text ''b'']
   \<and> one_hot_encode
        (CellArray TextDT (Matrix 2 [[Text ''a'', Text ''x''], [Text ''b'', Text ''y''], [Text ''a'', Text ''z'']]))
        [0] True
        = Inr (CellArray TextDT
                 (Matrix 2 [[Text ''0'', Text ''x''], [Text ''1'', Text ''y''], [Text ''0'', Text ''z'']]))
   \<and> one_hot_encode
        (CellArray ObjectDT (Matrix 2 [[Text ''a'', Num 5], [Text ''b'', Num 6], [Text ''a'', Num 7]]))
        [0] True
        = Inr (CellArray ObjectDT (Matrix 2 [[Num 0, Num 5], [Num 1, Num 6], [Num 0, Num 7]]))"
proof -
  let ?M = "Matrix 2 [[Text ''a'', Text ''x''], [Text ''b'', Text ''y''], [Text ''a'', Text ''z'']]"
  let ?N = "Matrix 2 [[Text ''a'', Num 5], [Text ''b'', Num 6], [Text ''a'', Num 7]]"
  have h: "wf_matrix ?M" "rows ?M \<noteq> []" "distinct [0 :: int]"
    "\<forall>i\<in>set [0 :: int]. 0 \<le> i \<and> i < int (ncols ?M) \<and> homogeneous (column ?M (nat i))"
    by (simp_all add: wf_matrix_def homogeneous_def column_def)
  have g: "wf_matrix ?N" "rows ?N \<noteq> []"
    "\<forall>i\<in>set [0 :: int]. 0 \<le> i \<and> i < int (ncols ?N) \<and> homogeneous (column ?N (nat i))"
    by (simp_all add: wf_matrix_def homogeneous_def column_def)
  have c: "categories ?M 0 = [Text ''a'', Text ''b'']" "categories ?N 0 = [Text ''a'', Text ''b'']"
    by (simp_all add: categories_def column_def np_unique_def)
  have u: "[0..<2] = [0, Suc 0]" by (simp add: upt_rec)
  have h': "wf_matrix (cells (CellArray TextDT ?M)) \<and> rows (cells (CellArray TextDT ?M)) \<noteq> []
      \<and> distinct [0 :: int]
      \<and> (\<forall>i\<in>set [0 :: int]. 0 \<le> i \<and> i < int (ncols (cells (CellArray TextDT ?M)))
            \<and> homogeneous (column (cells (CellArray TextDT ?M)) (nat i)))"
    using h by simp
  from one_hot_encode_in_dtype[of "CellArray TextDT ?M" "[0]" True] h'
  have "one_hot_encode (CellArray TextDT ?M) [0] True
      = Inr (spliced (CellArray TextDT ?M) (nat ` set [0]) True)" by blast
  then have t: "one_hot_encode (CellArray TextDT ?M) [0] True
      = Inr (CellArray TextDT
               (Matrix 2 [[Text ''0'', Text ''x''], [Text ''1'', Text ''y''], [Text ''0'', Text ''z'']]))"
    by (simp add: spliced_def spliced_row_def spliced_ncols_def c u indicator_block_def
          indicator_def rank_of_def store_int_bits)
  have g': "wf_matrix (cells (CellArray ObjectDT ?N)) \<and> rows (cells (CellArray ObjectDT ?N)) \<noteq> []
      \<and> distinct [0 :: int]
      \<and> (\<forall>i\<in>set [0 :: int]. 0 \<le> i \<and> i < int (ncols (cells (CellArray ObjectDT ?N)))
            \<and> homogeneous (column (cells (CellArray ObjectDT ?N)) (nat i)))"
    using g by simp
  from one_hot_encode_in_dtype[of "CellArray ObjectDT ?N" "[0]" True] g'
  have "one_hot_encode (CellArray ObjectDT ?N) [0] True
      = Inr (spliced (CellArray ObjectDT ?N) (nat ` set [0]) True)" by blast
  then have o: "one_hot_encode (CellArray ObjectDT ?N) [0] True
      = Inr (CellArray ObjectDT (Matrix 2 [[Num 0, Num 5], [Num 1, Num 6], [Num 0, Num 7]]))"
    by (simp add: spliced_def spliced_row_def spliced_ncols_def c u indicator_block_def
          indicator_def rank_of_def store_int_bits)
  from h c t o show ?thesis by simp
qed

text \<open>
  Claim C9 says that the new columns are binary and that each row of them sums to 1.
  On a text array the new cells are the texts \<open>'1'\<close> and \<open>'0'\<close>, which are no numbers
  and have no sum.
\<close>

theorem one_hot_encode_text_cells_counterexample:
  "one_hot_encode (CellArray TextDT (Matrix 1 [[Text ''a''], [Text ''b'']])) [0] False
     = Inr (CellArray TextDT (Matrix 2 [[Text ''1'', Text ''0''], [Text ''0'', Text ''1'']]))
   \<and> \<not> set [Text ''1'', Text ''0''] \<subseteq> {Num 0, Num 1}
   \<and> \<not> is_Num (Text ''1'') \<and> \<not> is_Num (Text ''0'')"
  by (simp add: one_hot_encode_def ohe_step_def norm_index_def insert_index_def np_unique_def
        one_hot_rows_def Let_def store_int_def str_int_bits)

text \<open>
  Claim C9, amended. Under the conditions of the amended C2, for every encoded
  column with \<open>k\<close> distinct values, each row receives cells that are the zero or the
  one of the dtype of \<open>X\<close> (the numbers 0 and 1 in an object or numeric array, the
  texts \<open>'0'\<close> and \<open>'1'\<close> in a text array). Without \<open>drop_first\<close> they are \<open>k\<close> cells of
  which exactly one is the one, and in an object or numeric array they sum to 1.
  With \<open>drop_first\<close> they are \<open>k - 1\<close> cells of which one or none is the one, in an
  object or numeric array they sum to 1 or 0, and two rows whose original values
  differ receive different cells (as they do without \<open>drop_first\<close>).
\<close>

theorem one_hot_encode_block_counts:
  fixes drop_first :: bool
  assumes wf: "wf_matrix (cells X)" and ne: "rows (cells X) \<noteq> []" and d: "distinct idxs"
    and ok: "\<forall>i\<in>set idxs. 0 \<le> i \<and> i < int (ncols (cells X))
               \<and> homogeneous (column (cells X) (nat i))"
  shows "one_hot_encode X idxs drop_first = Inr (spliced X (nat ` set idxs) drop_first)
    \<and> store_int (dtype X) 0 = (if dtype X = TextDT then Text ''0'' else Num 0)
    \<and> store_int (dtype X) 1 = (if dtype X = TextDT then Text ''1'' else Num 1)
    \<and> (\<forall>i\<in>set idxs.
          length (categories (cells X) (nat i)) = card (set (column (cells X) (nat i)))
        \<and> (\<forall>r\<in>set (rows (cells X)).
              set (indicator_block (dtype X) (categories (cells X) (nat i)) drop_first (r ! nat i))
                \<subseteq> {store_int (dtype X) 0, store_int (dtype X) 1}
            \<and> (\<not> drop_first \<longrightarrow>
                  length (indicator_block (dtype X) (categories (cells X) (nat i)) drop_first (r ! nat i))
                    = card (set (column (cells X) (nat i)))
                \<and> count_list
                    (indicator_block (dtype X) (categories (cells X) (nat i)) drop_first (r ! nat i))
                    (store_int (dtype X) 1) = 1
                \<and> (dtype X \<noteq> TextDT \<longrightarrow>
                    cell_sum (indicator_block (dtype X) (categories (cells X) (nat i)) drop_first
                      (r ! nat i)) = 1))
            \<and> (drop_first \<longrightarrow>
                  length (indicator_block (dtype X) (categories (cells X) (nat i)) drop_first (r ! nat i))
                    = card (set (column (cells X) (nat i))) - 1
                \<and> (count_list
                      (indicator_block (dtype X) (categories (cells X) (nat i)) drop_first (r ! nat i))
                      (store_int (dtype X) 1) = 1
                   \<or> count_list
                      (indicator_block (dtype X) (categories (cells X) (nat i)) drop_first (r ! nat i))
                      (store_int (dtype X) 1) = 0)
                \<and> (dtype X \<noteq> TextDT \<longrightarrow>
                    cell_sum (indicator_block (dtype X) (categories (cells X) (nat i)) drop_first
                      (r ! nat i)) = 1
                  \<or> cell_sum (indicator_block (dtype X) (categories (cells X) (nat i)) drop_first
                      (r ! nat i)) = 0)))
        \<and> (\<forall>r\<in>set (rows (cells X)). \<forall>r'\<in>set (rows (cells X)).
              r ! nat i \<noteq> r' ! nat i
              \<longrightarrow> indicator_block (dtype X) (categories (cells X) (nat i)) drop_first (r ! nat i)
                  \<noteq> indicator_block (dtype X) (categories (cells X) (nat i)) drop_first (r' ! nat i)))"
proof (intro conjI ballI impI)
  show "one_hot_encode X idxs drop_first = Inr (spliced X (nat ` set idxs) drop_first)"
    by (rule one_hot_encode_spliced[OF wf ne d ok])
  show "store_int (dtype X) 0 = (if dtype X = TextDT then Text ''0'' else Num 0)"
    by (rule store_int_bits(1))
  show "store_int (dtype X) 1 = (if dtype X = TextDT then Text ''1'' else Num 1)"
    by (rule store_int_bits(2))
next
  fix i assume i: "i \<in> set idxs"
  with ok have hom: "homogeneous (column (cells X) (nat i))" by simp
  let ?u = "categories (cells X) (nat i)"
  let ?dt = "dtype X"
  have su: "set ?u = set (column (cells X) (nat i))" by (rule categories_homogeneous(2)[OF hom])
  have du: "distinct ?u" by (rule categories_homogeneous(4)[OF hom])
  show k: "length ?u = card (set (column (cells X) (nat i)))"
    using distinct_card[OF du] su by simp
  {
    fix r assume r: "r \<in> set (rows (cells X))"
    then have m: "r ! nat i \<in> set ?u" unfolding su by (simp add: column_def)
    show "set (indicator_block ?dt ?u drop_first (r ! nat i)) \<subseteq> {store_int ?dt 0, store_int ?dt 1}"
      by (rule indicator_block_binary)
    {
      assume nd: "\<not> drop_first"
      then show "length (indicator_block ?dt ?u drop_first (r ! nat i))
          = card (set (column (cells X) (nat i)))"
        using k by (simp add: indicator_block_length)
      from nd show "count_list (indicator_block ?dt ?u drop_first (r ! nat i)) (store_int ?dt 1) = 1"
        using count_indicator[OF m, of ?dt] by (simp add: indicator_block_def)
      assume "?dt \<noteq> TextDT"
      with nd show "cell_sum (indicator_block ?dt ?u drop_first (r ! nat i)) = 1"
        using cell_sum_indicator[OF _ m, of ?dt] by (simp add: indicator_block_def)
    }
    {
      assume df: "drop_first"
      then show "length (indicator_block ?dt ?u drop_first (r ! nat i))
          = card (set (column (cells X) (nat i))) - 1"
        using k by (simp add: indicator_block_length)
      from df show "count_list (indicator_block ?dt ?u drop_first (r ! nat i)) (store_int ?dt 1) = 1
          \<or> count_list (indicator_block ?dt ?u drop_first (r ! nat i)) (store_int ?dt 1) = 0"
        using count_indicator_drop[OF m, of ?dt] by (simp add: indicator_block_def)
      assume "?dt \<noteq> TextDT"
      with df show "cell_sum (indicator_block ?dt ?u drop_first (r ! nat i)) = 1
          \<or> cell_sum (indicator_block ?dt ?u drop_first (r ! nat i)) = 0"
        using cell_sum_indicator_drop[OF _ m, of ?dt] by (simp add: indicator_block_def)
    }
    fix r' assume r': "r' \<in> set (rows (cells X))" and neq: "r ! nat i \<noteq> r' ! nat i"
    from r' have m': "r' ! nat i \<in> set ?u" unfolding su by (simp add: column_def)
    show "indicator_block ?dt ?u drop_first (r ! nat i) \<noteq> indicator_block ?dt ?u drop_first (r' ! nat i)"
      by (rule indicator_block_inj[OF du m m' neq])
  }
qed

theorem one_hot_encode_block_counts_witness:
  "wf_matrix (Matrix 2 [[Text ''a'', Text ''x''], [Text ''b'', Text ''y''], [Text ''c'', Text ''z'']])
   \<and> distinct [0 :: int]
   \<and> homogeneous (column (Matrix 2 [[Text ''a'', Text ''x''], [Text ''b'', Text ''y''], [Text ''c'', Text ''z'']]) 0)
   \<and> one_hot_encode
        (CellArray TextDT (Matrix 2 [[Text ''a'', Text ''x''], [Text ''b'', Text ''y''], [Text ''c'', Text ''z'']]))
        [0] True
        = Inr (CellArray TextDT
                 (Matrix 3 [[Text ''0'', Text ''0'', Text ''x''], [Text ''1'', Text ''0'', Text ''y''],
                            [Text ''0'', Text ''1'', Text ''z'']]))
   \<and> count_list [Text ''0'', Text ''0''] (Text ''1'') = 0
   \<and> count_list [Text ''1'', Text ''0''] (Text ''1'') = 1
   \<and> count_list [Text ''0'', Text ''1''] (Text ''1'') = 1
   \<and> card (set (column (Matrix 2 [[Text ''a'', Text ''x''], [Text ''b'', Text ''y''], [Text ''c'', Text ''z'']]) 0)) = 3"
proof -
  let ?M = "Matrix 2 [[Text ''a'', Text ''x''], [Text ''b'', Text ''y''], [Text ''c'', Text ''z'']]"
  have h: "wf_matrix (cells (CellArray TextDT ?M))" "rows (cells (CellArray TextDT ?M)) \<noteq> []"
    "distinct [0 :: int]"
    "\<forall>i\<in>set [0 :: int]. 0 \<le> i \<and> i < int (ncols (cells (CellArray TextDT ?M)))
        \<and> homogeneous (column (cells (CellArray TextDT ?M)) (nat i))"
    by (simp_all add: wf_matrix_def homogeneous_def column_def)
  have c: "categories ?M 0 = [Text ''a'', Text ''b'', Text ''c'']"
    by (simp add: categories_def column_def np_unique_def)
  have u: "[0..<2] = [0, Suc 0]" by (simp add: upt_rec)
  note inst = one_hot_encode_block_counts[OF h, of True]
  from inst have "one_hot_encode (CellArray TextDT ?M) [0] True
      = Inr (spliced (CellArray TextDT ?M) (nat ` set [0]) True)" by blast
  then have e: "one_hot_encode (CellArray TextDT ?M) [0] True
      = Inr (CellArray TextDT
               (Matrix 3 [[Text ''0'', Text ''0'', Text ''x''], [Text ''1'', Text ''0'', Text ''y''],
                          [Text ''0'', Text ''1'', Text ''z'']]))"
    by (simp add: spliced_def spliced_row_def spliced_ncols_def c u indicator_block_def
          indicator_def rank_of_def store_int_bits)
  from inst have "length (categories (cells (CellArray TextDT ?M)) (nat 0))
      = card (set (column (cells (CellArray TextDT ?M)) (nat 0)))" by simp
  with c have k: "card (set (column ?M 0)) = 3" by simp
  from h e k show ?thesis by simp
qed

end
